theory Spec2Isabelle
  imports Main "HOL-Library.Word" "HOL-Library.Signed_Division"
begin

unbundle bit_operations_syntax

section \<open>Shared constants (types.h)\<close>

text \<open>
  C's \<open>int\<close> is a 32-bit two's complement integer on every platform the engine targets;
  it is modelled as \<open>32 word\<close>, read through \<open>sint\<close>. \<open>uint64_t\<close>, \<open>uint16_t\<close>,
  \<open>uint8_t\<close>, \<open>int16_t\<close> and \<open>int8_t\<close> are words of their width; a conversion to a
  narrower type is \<open>ucast\<close> (the value modulo \<open>2 ^ w\<close>), the promotion of a signed
  field to \<open>int\<close> is \<open>scast\<close> and that of an unsigned one is \<open>ucast\<close>.
\<close>

type_synonym c_int = "32 word"

definition MAX_PLY :: c_int where
  "MAX_PLY = 128"

definition TBWIN :: c_int where
  "TBWIN = 31000 + MAX_PLY"

definition TBWIN_IN_MAX :: c_int where
  "TBWIN_IN_MAX = TBWIN - MAX_PLY"

definition WHITE :: nat where
  "WHITE = 0"

definition BLACK :: nat where
  "BLACK = 1"

text \<open>
  The piece codes: \<open>WHITE_PAWN = 0\<close> to \<open>WHITE_KING = 5\<close>, \<open>BLACK_PAWN = 8\<close> to
  \<open>BLACK_KING = 13\<close>, and \<open>EMPTY = 14\<close>.
\<close>

definition piece_code :: "8 word \<Rightarrow> bool" where
  "piece_code p \<longleftrightarrow> p \<le> 5 \<or> (8 \<le> p \<and> p \<le> 13) \<or> p = 14"

section \<open>Mate-score renormalisation\<close>

definition valueFromTT :: "c_int \<Rightarrow> c_int \<Rightarrow> c_int" where
  "valueFromTT v height =
     (if TBWIN_IN_MAX \<le>s v then v - height
      else if v \<le>s - TBWIN_IN_MAX then v + height
      else v)"

definition valueToTT :: "c_int \<Rightarrow> c_int \<Rightarrow> c_int" where
  "valueToTT v height =
     (if TBWIN_IN_MAX \<le>s v then v + height
      else if v \<le>s - TBWIN_IN_MAX then v - height
      else v)"

section \<open>Declarations of transposition.h\<close>

text \<open>
  Modelled from the spec: the header transposition.h (the bound enumeration, the masks of
  the generation byte, the bucket width and the layout of the structs \<open>TTEntry\<close>,
  \<open>TTBucket\<close>, \<open>TTable\<close>, \<open>PKEntry\<close>, \<open>PKTable\<close> and \<open>BoardHashSrc\<close>) is not among
  the sources. The spec gives: a four-valued bound classification (none, lower, upper,
  exact) in the low two bits of the generation byte, the age in its six high bits, three
  slots to a bucket, and a slot of a 16-bit signature, a 16-bit move, signed 16-bit score
  and evaluation, and a signed 8-bit depth.
\<close>

definition BOUND_NONE :: c_int where
  "BOUND_NONE = 0"

definition BOUND_LOWER :: c_int where
  "BOUND_LOWER = 1"

definition BOUND_UPPER :: c_int where
  "BOUND_UPPER = 2"

definition BOUND_EXACT :: c_int where
  "BOUND_EXACT = 3"

text \<open>
  The masks are only ever applied to a generation byte, or (in the replacement score) to
  an \<open>int\<close> between 4 and 514, of which \<open>TT_MASK_AGE\<close> keeps bits 2 to 7.
\<close>

definition TT_MASK_BOUND :: "8 word" where
  "TT_MASK_BOUND = 0x03"

definition TT_MASK_AGE :: "8 word" where
  "TT_MASK_AGE = 0xFC"

definition TT_BUCKET_NB :: nat where
  "TT_BUCKET_NB = 3"

text \<open>
  \<open>sizeof(TTBucket)\<close>: three slots of ten bytes and a 16-bit padding. \<open>initTT\<close> asserts
  \<open>(1ull << 16) * sizeof(TTBucket) == 2 * MB\<close>, which fixes it to 32.
\<close>

definition sizeof_TTBucket :: "64 word" where
  "sizeof_TTBucket = 32"

definition MB :: "64 word" where
  "MB = push_bit 20 1"

record TTEntry =
  depth :: "8 word"
  generation :: "8 word"
  eval :: "16 word"
  tt_value :: "16 word"
  move :: "16 word"
  hash16 :: "16 word"

record TTBucket =
  slots :: "TTEntry list"
  padding :: "16 word"

record TTable =
  buckets :: "TTBucket list"
  hashMask :: "64 word"
  generation :: "8 word"

text \<open>
  Modelled from the spec: the struct \<open>Board\<close> of board.h is not among the sources. The
  module reads its first eight 64-bit words through a cast (\<open>rawBoard\<close>), the 64-bit
  composite castling field, the en-passant square (\<open>-1\<close> for none) and the side to move.
\<close>

record Board =
  rawBoard :: "64 word list"
  castleRooks :: "64 word"
  epSquare :: int
  turn :: int

record BoardHashSrc =
  packedSquares :: "64 word list"
  castleRooks :: "8 word list"
  epSquare :: int
  turn :: int
  padding :: "8 word"

text \<open>
  The globals of transposition.c: \<open>Table\<close>, \<open>verificationHashes\<close>, \<open>passedLookups\<close>
  and \<open>verificationFailures\<close>. Every operation takes the globals and returns them updated.
\<close>

record globals =
  Table :: TTable
  verificationHashes :: "BoardHashSrc list"
  passedLookups :: "64 word"
  verificationFailures :: "64 word"

section \<open>Packing a board into its verification record\<close>

text \<open>
  The two packing loops of \<open>boardToBoardHashSrc\<close> write \<open>packedSquares[i]\<close> for
  \<open>i = 0, 1, 2, 3\<close>. The assertions of the function are compiled out of a release build;
  they are the predicate \<open>packing_asserts\<close> below.
\<close>

definition boardToBoardHashSrc :: "Board \<Rightarrow> BoardHashSrc" where
  "boardToBoardHashSrc board =
     \<lparr> packedSquares =
         map (\<lambda>i. rawBoard board ! (i * 2) OR push_bit 4 (rawBoard board ! (i * 2 + 1))) [0..<4],
       castleRooks =
         [ucast (Board.castleRooks board AND 0xFF),
          ucast (drop_bit 56 (Board.castleRooks board) AND 0xFF)],
       epSquare = Board.epSquare board,
       turn = Board.turn board,
       padding = 0 \<rparr>"

definition nibble_mask :: "64 word" where
  "nibble_mask = 0x0F0F0F0F0F0F0F0F"

definition packing_asserts :: "Board \<Rightarrow> bool" where
  "packing_asserts board =
     (let h = boardToBoardHashSrc board in
      list_all (\<lambda>i. packedSquares h ! i AND nibble_mask = rawBoard board ! (i * 2) \<and>
                       drop_bit 4 (packedSquares h ! i) AND nibble_mask = rawBoard board ! (i * 2 + 1))
        [0..<4] \<and>
      (ucast (BoardHashSrc.castleRooks h ! WHITE) OR
         ucast (BoardHashSrc.castleRooks h ! BLACK) * 0x0100000000000000) = Board.castleRooks board \<and>
      BoardHashSrc.epSquare h = Board.epSquare board \<and>
      BoardHashSrc.turn h = Board.turn board)"

text \<open>
  The bits a word of \<open>rawBoard\<close> must leave clear for the nibble packing to keep it (the
  high nibble of each byte, so that every square's byte is below 16), and the bits of the
  castling field outside its lowest and highest byte.
\<close>

definition high_nibbles :: "64 word" where
  "high_nibbles = 0xF0F0F0F0F0F0F0F0"

definition castle_middle :: "64 word" where
  "castle_middle = 0x00FFFFFFFFFFFF00"

definition nibble_board :: "Board \<Rightarrow> bool" where
  "nibble_board b \<longleftrightarrow>
     list_all (\<lambda>i. rawBoard b ! i AND high_nibbles = 0) [0..<8] \<and>
     Board.castleRooks b AND castle_middle = 0"

text \<open>
  Modelled from the spec: the boards the program holds (the struct \<open>Board\<close> of board.h is not
  among the sources). The spec has every nibble of a packed word hold one piece code 0 to 14,
  14 meaning empty, and one byte of castling rights for each side. So the first 64 bytes of a
  \<open>Board\<close> are its array of squares, one piece code to a square: byte \<open>j\<close> of a raw word is
  \<open>square_byte w j\<close>, and \<open>boardHashSrcToZobrist\<close> and \<open>printBoardHashSrc\<close> read the
  unpacked words back as such an array. The rooks that may castle stand on the first and on
  the eighth rank, bits 0 to 7 and 56 to 63 of \<open>castleRooks\<close>: the two bytes
  \<open>boardToBoardHashSrc\<close> extracts and \<open>boardHashSrcToZobrist\<close> puts together again.
\<close>

definition square_byte :: "64 word \<Rightarrow> nat \<Rightarrow> 8 word" where
  "square_byte w j = ucast (drop_bit (8 * j) w)"

definition valid_board :: "Board \<Rightarrow> bool" where
  "valid_board b \<longleftrightarrow>
     length (rawBoard b) = 8 \<and>
     list_all (\<lambda>w. list_all (\<lambda>j. piece_code (square_byte w j)) [0..<8]) (rawBoard b) \<and>
     Board.castleRooks b AND castle_middle = 0"

section \<open>The transposition table\<close>

definition zero_entry :: TTEntry where
  "zero_entry = \<lparr> depth = 0, generation = 0, eval = 0, tt_value = 0, move = 0, hash16 = 0 \<rparr>"

definition zero_bucket :: TTBucket where
  "zero_bucket = \<lparr> slots = replicate TT_BUCKET_NB zero_entry, padding = 0 \<rparr>"

definition zero_hashsrc :: BoardHashSrc where
  "zero_hashsrc =
     \<lparr> packedSquares = replicate 4 0, castleRooks = replicate 2 0, epSquare = 0, turn = 0,
       padding = 0 \<rparr>"

text \<open>\<open>clearTT\<close>: the \<open>memset\<close> zeroes the first \<open>hashMask + 1\<close> buckets and nothing else.\<close>

definition clearTT :: "globals \<Rightarrow> globals" where
  "clearTT g =
     (let n = unat (hashMask (Table g) + 1) in
      g\<lparr> Table := (Table g)\<lparr> buckets := replicate n zero_bucket @ drop n (buckets (Table g)) \<rparr> \<rparr>)"

text \<open>
  The key-size loop of \<open>initTT\<close>. A shift \<open>1ull << keySize\<close> by 64 or more is undefined
  in C: the model returns \<open>None\<close> there.
\<close>

function keySize_search :: "64 word \<Rightarrow> nat \<Rightarrow> nat option" where
  "keySize_search megabytes keySize =
     (if 64 \<le> keySize then None
      else if push_bit keySize 1 * sizeof_TTBucket \<le> megabytes * MB div 2
        then keySize_search megabytes (keySize + 1)
      else Some keySize)"
  by pat_completeness auto
termination
  by (relation "measure (\<lambda>(megabytes, keySize). 64 - keySize)") auto

text \<open>
  The two assertions of \<open>initTT\<close>, the second for the key size the loop stops at. They are
  compiled out of a release build.
\<close>

definition initTT_asserts :: "64 word \<Rightarrow> nat \<Rightarrow> bool" where
  "initTT_asserts megabytes keySize \<longleftrightarrow>
     push_bit 16 1 * sizeof_TTBucket = 2 * MB \<and>
     push_bit keySize 1 * sizeof_TTBucket \<le> megabytes * MB"

text \<open>
  The allocator is a parameter of \<open>initTT\<close>: which requests the C library grants.
  \<open>aligned_alloc\<close> (\<open>malloc\<close> where huge pages are not requested) is asked for a number
  of bytes, \<open>calloc\<close> for a number of records of \<open>sizeof(BoardHashSrc)\<close> bytes each. A
  request that is not granted returns \<open>NULL\<close>, and \<open>initTT\<close> does not test the pointers.
\<close>

record allocator =
  grants_bytes :: "64 word \<Rightarrow> bool"
  grants_records :: "64 word \<Rightarrow> bool"

text \<open>
  \<open>initTT\<close>: the old arrays are freed, the bucket array is allocated (its contents are
  indeterminate until \<open>clearTT\<close> overwrites all of it), the verification array comes
  zeroed from \<open>calloc\<close>. When the bucket array is not granted, \<open>Table.buckets\<close> is \<open>NULL\<close>
  and the \<open>memset\<close> of \<open>clearTT\<close> writes through it: the behaviour is undefined and the
  model returns \<open>None\<close>. When the verification array is not granted, \<open>verificationHashes\<close>
  is \<open>NULL\<close>, the empty array, and \<open>initTT\<close> returns all the same.
\<close>

definition initTT :: "allocator \<Rightarrow> 64 word \<Rightarrow> globals \<Rightarrow> globals option" where
  "initTT heap megabytes g =
     (case keySize_search megabytes 16 of
        None \<Rightarrow> None
      | Some keySize \<Rightarrow>
          if \<not> grants_bytes heap (push_bit keySize 1 * sizeof_TTBucket) then None
          else
            Some (clearTT
              (g\<lparr> Table := (Table g)\<lparr> buckets := replicate (2 ^ keySize) zero_bucket,
                                        hashMask := push_bit keySize 1 - 1 \<rparr>,
                   verificationHashes :=
                     (if grants_records heap (3 * push_bit keySize 1)
                      then replicate (3 * 2 ^ keySize) zero_hashsrc else []) \<rparr>)))"

definition hashSizeMBTT :: "globals \<Rightarrow> c_int" where
  "hashSizeMBTT g = ucast (((hashMask (Table g) + 1) * sizeof_TTBucket) div MB)"

definition updateTT :: "globals \<Rightarrow> globals" where
  "updateTT g =
     g\<lparr> Table := (Table g)\<lparr> generation := TTable.generation (Table g) + (TT_MASK_BOUND + 1) \<rparr> \<rparr>"

subsection \<open>Occupancy estimate\<close>

text \<open>
  \<open>slot_used\<close> is the summand of \<open>hashfullTT\<close>: 1 when the slot's bound bits are not
  \<open>BOUND_NONE\<close> and its age bits equal \<open>Table.generation\<close>, else 0. The two loops count in
  an \<open>int\<close>; the quotient \<open>used / TT_BUCKET_NB\<close> is C's truncating division \<open>sdiv\<close>.
\<close>

definition slot_used :: "8 word \<Rightarrow> TTEntry \<Rightarrow> bool" where
  "slot_used gen e \<longleftrightarrow>
     (ucast (TTEntry.generation e AND TT_MASK_BOUND) :: c_int) \<noteq> BOUND_NONE \<and>
     TTEntry.generation e AND TT_MASK_AGE = gen"

function hashfull_slots :: "globals \<Rightarrow> nat \<Rightarrow> nat \<Rightarrow> c_int \<Rightarrow> c_int" where
  "hashfull_slots g i j used =
     (if j < TT_BUCKET_NB
      then hashfull_slots g i (j + 1)
             (used + (if slot_used (TTable.generation (Table g)) (slots (buckets (Table g) ! i) ! j)
                      then 1 else 0))
      else used)"
  by pat_completeness auto
termination
  by (relation "measure (\<lambda>(g, i, j, used). TT_BUCKET_NB - j)") auto

function hashfull_buckets :: "globals \<Rightarrow> nat \<Rightarrow> c_int \<Rightarrow> c_int" where
  "hashfull_buckets g i used =
     (if i < 1000 then hashfull_buckets g (i + 1) (hashfull_slots g i 0 used) else used)"
  by pat_completeness auto
termination
  by (relation "measure (\<lambda>(g, i, used). 1000 - i)") auto

definition hashfullTT :: "globals \<Rightarrow> c_int" where
  "hashfullTT g = word_of_int (sint (hashfull_buckets g 0 0) sdiv int TT_BUCKET_NB)"

subsection \<open>Verification, probe and store\<close>

definition bucket_index :: "globals \<Rightarrow> 64 word \<Rightarrow> nat" where
  "bucket_index g hash = unat (hash AND hashMask (Table g))"

text \<open>The index \<open>(hash & Table.hashMask) * 3 + slot\<close> into the verification array, in 64 bits.\<close>

definition verification_index :: "globals \<Rightarrow> 64 word \<Rightarrow> nat \<Rightarrow> nat" where
  "verification_index g hash slot = unat ((hash AND hashMask (Table g)) * 3 + word_of_nat slot)"

definition bucket_slots :: "globals \<Rightarrow> 64 word \<Rightarrow> TTEntry list" where
  "bucket_slots g hash = slots (buckets (Table g) ! bucket_index g hash)"

text \<open>Writing \<open>slots[i]\<close> of the bucket the hash selects.\<close>

definition set_slot :: "globals \<Rightarrow> 64 word \<Rightarrow> nat \<Rightarrow> TTEntry \<Rightarrow> globals" where
  "set_slot g hash i e =
     (let b = bucket_index g hash; bs = buckets (Table g) in
      g\<lparr> Table := (Table g)\<lparr> buckets := bs[b := (bs ! b)\<lparr> slots := (slots (bs ! b))[i := e] \<rparr>] \<rparr> \<rparr>)"

text \<open>
  \<open>verifyTTEntry\<close> returns 1 on a mismatch of the packed board with the stored record
  (\<open>memcmp\<close> over the whole struct), 0 otherwise, and counts.
\<close>

definition verifyTTEntry :: "64 word \<Rightarrow> nat \<Rightarrow> Board \<Rightarrow> globals \<Rightarrow> c_int \<times> globals" where
  "verifyTTEntry hash slot board g =
     (let hashSrc = boardToBoardHashSrc board;
          verificationBoard = verificationHashes g ! verification_index g hash slot;
          mismatch = (hashSrc \<noteq> verificationBoard);
          failure = (mismatch \<and>
                     \<not> (packedSquares verificationBoard ! 0 = 0 \<and>
                        packedSquares verificationBoard ! 1 = 0 \<and>
                        packedSquares verificationBoard ! 2 = 0 \<and>
                        packedSquares verificationBoard ! 3 = 0))
      in (if mismatch then 1 else 0,
          g\<lparr> passedLookups := passedLookups g + 1,
             verificationFailures := verificationFailures g + (if failure then 1 else 0) \<rparr>))"

text \<open>
  The out-parameters of \<open>getTTEntry\<close>. The model returns \<open>None\<close> where the code returns 0
  (the out-parameters are not written) and \<open>Some\<close> of what it wrote where it returns 1.
\<close>

record TTHit =
  out_move :: "16 word"
  out_value :: c_int
  out_eval :: c_int
  out_depth :: c_int
  out_bound :: c_int
  out_slot :: nat

text \<open>The body of the probe loop for a slot whose signature matches.\<close>

definition getTTEntry_slot :: "64 word \<Rightarrow> Board \<Rightarrow> globals \<Rightarrow> nat \<Rightarrow> TTHit option \<times> globals" where
  "getTTEntry_slot hash board g i =
     (case verifyTTEntry hash i board g of (ret, g1) \<Rightarrow>
        if ret \<noteq> 0 then (None, g1)
        else
          (let e = bucket_slots g1 hash ! i;
               e' = e\<lparr> TTEntry.generation :=
                        TTable.generation (Table g1) OR (TTEntry.generation e AND TT_MASK_BOUND) \<rparr>
           in (Some \<lparr> out_move = move e',
                      out_value = scast (tt_value e'),
                      out_eval = scast (eval e'),
                      out_depth = scast (depth e'),
                      out_bound = ucast (TTEntry.generation e' AND TT_MASK_BOUND),
                      out_slot = i \<rparr>,
               set_slot g1 hash i e')))"

function getTTEntry_scan :: "64 word \<Rightarrow> Board \<Rightarrow> globals \<Rightarrow> nat \<Rightarrow> TTHit option \<times> globals" where
  "getTTEntry_scan hash board g i =
     (if i < TT_BUCKET_NB then
        (if hash16 (bucket_slots g hash ! i) = ucast (drop_bit 48 hash)
         then getTTEntry_slot hash board g i
         else getTTEntry_scan hash board g (i + 1))
      else (None, g))"
  by pat_completeness auto
termination
  by (relation "measure (\<lambda>(hash, board, g, i). TT_BUCKET_NB - i)") auto

definition getTTEntry :: "64 word \<Rightarrow> Board \<Rightarrow> globals \<Rightarrow> TTHit option \<times> globals" where
  "getTTEntry hash board g = getTTEntry_scan hash board g 0"

text \<open>
  The replacement score of a slot. Its operands are promoted to \<open>int\<close>: the depth lies in
  \<open>-128..127\<close> and \<open>259 + Table.generation - generation\<close> in \<open>4..514\<close>, so nothing overflows and
  the score is computed on the integers.
\<close>

definition replacement_score :: "8 word \<Rightarrow> TTEntry \<Rightarrow> int" where
  "replacement_score gen e =
     sint (depth e) - ((259 + uint gen - uint (TTEntry.generation e)) AND uint TT_MASK_AGE)"

text \<open>
  The scan of \<open>storeTTEntry\<close>: \<open>i\<close> is the loop counter and \<open>replace\<close> the index of the
  slot the pointer \<open>replace\<close> points to. It returns both as the loop leaves them.
\<close>

function storeTTEntry_scan :: "16 word \<Rightarrow> 8 word \<Rightarrow> TTEntry list \<Rightarrow> nat \<Rightarrow> nat \<Rightarrow> nat \<times> nat" where
  "storeTTEntry_scan h16 gen ss i replace =
     (if i < TT_BUCKET_NB \<and> hash16 (ss ! i) \<noteq> h16
      then storeTTEntry_scan h16 gen ss (i + 1)
             (if replacement_score gen (ss ! replace) \<ge> replacement_score gen (ss ! i)
              then i else replace)
      else (i, replace))"
  by pat_completeness auto
termination
  by (relation "measure (\<lambda>(h16, gen, ss, i, replace). TT_BUCKET_NB - i)") auto

text \<open>The slot \<open>storeTTEntry\<close> selects: the matching one if the scan found it, else the weakest.\<close>

definition store_target :: "globals \<Rightarrow> 64 word \<Rightarrow> nat" where
  "store_target g hash =
     (case storeTTEntry_scan (ucast (drop_bit 48 hash)) (TTable.generation (Table g))
             (bucket_slots g hash) 0 0 of
        (i, replace) \<Rightarrow> if i \<noteq> TT_BUCKET_NB then i else replace)"

text \<open>The early return of \<open>storeTTEntry\<close>.\<close>

definition store_discarded :: "globals \<Rightarrow> 64 word \<Rightarrow> c_int \<Rightarrow> c_int \<Rightarrow> bool" where
  "store_discarded g hash depth' bound \<longleftrightarrow>
     bound \<noteq> BOUND_EXACT \<and>
     ucast (drop_bit 48 hash) = hash16 (bucket_slots g hash ! store_target g hash) \<and>
     sint depth' < sint (depth (bucket_slots g hash ! store_target g hash)) - 3"

text \<open>The slot contents \<open>storeTTEntry\<close> writes, with the conversions of its assignments.\<close>

definition new_entry :: "8 word \<Rightarrow> 64 word \<Rightarrow> 16 word \<Rightarrow> c_int \<Rightarrow> c_int \<Rightarrow> c_int \<Rightarrow> c_int \<Rightarrow> TTEntry" where
  "new_entry gen hash move' value' eval' depth' bound =
     \<lparr> depth = ucast depth',
       generation = ucast bound OR gen,
       eval = ucast eval',
       tt_value = ucast value',
       move = move',
       hash16 = ucast (drop_bit 48 hash) \<rparr>"

definition storeTTEntry ::
  "64 word \<Rightarrow> 16 word \<Rightarrow> c_int \<Rightarrow> c_int \<Rightarrow> c_int \<Rightarrow> c_int \<Rightarrow> Board \<Rightarrow> globals \<Rightarrow> globals" where
  "storeTTEntry hash move' value' eval' depth' bound board g =
     (let replace = store_target g hash in
      if store_discarded g hash depth' bound then g
      else
        (let g1 = set_slot g hash replace
                    (new_entry (TTable.generation (Table g)) hash move' value' eval' depth' bound)
         in g1\<lparr> verificationHashes :=
                   (verificationHashes g1)[verification_index g hash replace :=
                      boardToBoardHashSrc board] \<rparr>))"

section \<open>The pawn/king cache\<close>

text \<open>
  Modelled from the spec: \<open>PKEntry\<close>, \<open>PKTable\<close> and the constant \<open>PKT_HASH_SHIFT\<close> are
  declared in transposition.h, which is not among the sources. The shift is a parameter of
  the two functions. The pointer \<open>getPKEntry\<close> returns is the index of the entry it points
  to; \<open>None\<close> is \<open>NULL\<close>.
\<close>

record PKEntry =
  pkhash :: "64 word"
  passed :: "64 word"
  eval :: c_int

record PKTable =
  entries :: "PKEntry list"

definition getPKEntry :: "nat \<Rightarrow> PKTable \<Rightarrow> 64 word \<Rightarrow> nat option" where
  "getPKEntry PKT_HASH_SHIFT pktable pkhash' =
     (let pkentry = unat (drop_bit PKT_HASH_SHIFT pkhash') in
      if pkhash (entries pktable ! pkentry) = pkhash' then Some pkentry else None)"

definition storePKEntry :: "nat \<Rightarrow> PKTable \<Rightarrow> 64 word \<Rightarrow> 64 word \<Rightarrow> c_int \<Rightarrow> PKTable" where
  "storePKEntry PKT_HASH_SHIFT pktable pkhash' passed' eval' =
     (let pkentry = unat (drop_bit PKT_HASH_SHIFT pkhash') in
      pktable\<lparr> entries := (entries pktable)[pkentry :=
        (entries pktable ! pkentry)\<lparr> pkhash := pkhash', passed := passed', eval := eval' \<rparr>] \<rparr>)"

section \<open>The invariant of the table\<close>

text \<open>
  What \<open>initTT\<close> establishes and every operation keeps: the bucket array has
  \<open>hashMask + 1\<close> buckets of three slots (at most \<open>2 ^ 58\<close> of them, the largest key size
  the search of \<open>initTT\<close> can reach), the verification array three records to a bucket, and
  the low two bits of \<open>Table.generation\<close> are clear (the assertion of \<open>updateTT\<close>).
\<close>

definition table_ok :: "globals \<Rightarrow> bool" where
  "table_ok g \<longleftrightarrow>
     length (buckets (Table g)) = unat (hashMask (Table g)) + 1 \<and>
     unat (hashMask (Table g)) < 2 ^ 58 \<and>
     list_all (\<lambda>b. length (slots b) = TT_BUCKET_NB) (buckets (Table g)) \<and>
     length (verificationHashes g) = 3 * length (buckets (Table g)) \<and>
     TTable.generation (Table g) AND TT_MASK_BOUND = 0"

declare keySize_search.simps [simp del]
declare hashfull_slots.simps [simp del]
declare hashfull_buckets.simps [simp del]
declare getTTEntry_scan.simps [simp del]
declare storeTTEntry_scan.simps [simp del]

section \<open>Example values\<close>

text \<open>Concrete tables, boards and hashes at which the theorems below are instantiated.\<close>

definition example_pktable :: PKTable where
  "example_pktable = \<lparr> entries = replicate 65536 \<lparr> pkhash = 0, passed = 0, eval = 0 \<rparr> \<rparr>"

text \<open>
  The initial position, one byte to a square from a1: piece codes as in types.h, 14 for an
  empty square; castling rooks on a1, h1, a8 and h8.
\<close>

definition startpos :: Board where
  "startpos =
     \<lparr> rawBoard = [0x0301020504020103, 0x0000000000000000, 0x0E0E0E0E0E0E0E0E, 0x0E0E0E0E0E0E0E0E,
                    0x0E0E0E0E0E0E0E0E, 0x0E0E0E0E0E0E0E0E, 0x0808080808080808, 0x0B090A0D0C0A090B],
       castleRooks = 0x8100000000000081, epSquare = - 1, turn = 0 \<rparr>"

text \<open>
  An allocator that grants a bucket array of up to 1 GiB and up to \<open>2 ^ 24\<close> verification
  records, and nothing larger.
\<close>

definition example_heap :: allocator where
  "example_heap =
     \<lparr> grants_bytes = (\<lambda>n. n \<le> 0x40000000), grants_records = (\<lambda>n. n \<le> 0x1000000) \<rparr>"

text \<open>
  The globals as the program starts (static storage is zeroed), and the 2 MB table
  \<open>initTT(2)\<close> builds from them.
\<close>

definition start_globals :: globals where
  "start_globals =
     \<lparr> Table = \<lparr> buckets = [], hashMask = 0, generation = 0 \<rparr>,
       verificationHashes = [], passedLookups = 0, verificationFailures = 0 \<rparr>"

definition fresh_table :: globals where
  "fresh_table =
     \<lparr> Table = \<lparr> buckets = replicate 65536 zero_bucket, hashMask = 65535, generation = 0 \<rparr>,
       verificationHashes = replicate 196608 zero_hashsrc, passedLookups = 0,
       verificationFailures = 0 \<rparr>"

text \<open>
  The count the occupancy estimate is compared with, in the words of the claim: the number
  of slots among the first 1000 buckets that \<open>slot_used\<close> accepts.
\<close>

definition used_slots :: "globals \<Rightarrow> nat" where
  "used_slots g =
     length (filter (slot_used (TTable.generation (Table g)))
       (concat (map slots (take 1000 (buckets (Table g))))))"

text \<open>
  A table at generation 8 whose every bucket holds one entry of the current generation, one
  empty slot and one entry of the generation before.
\<close>

definition third_full_table :: globals where
  "third_full_table =
     \<lparr> Table =
         \<lparr> buckets = replicate 65536
             \<lparr> slots =
                 [\<lparr> depth = 5, generation = 0x0B, eval = 12, tt_value = 34, move = 796, hash16 = 0xBEEF \<rparr>,
                  zero_entry,
                  \<lparr> depth = 9, generation = 0x07, eval = 0, tt_value = - 20, move = 1, hash16 = 0x1234 \<rparr>],
               padding = 0 \<rparr>,
           hashMask = 65535, generation = 8 \<rparr>,
       verificationHashes = replicate 196608 zero_hashsrc, passedLookups = 0,
       verificationFailures = 0 \<rparr>"

text \<open>A hash with signature \<open>0xBEEF\<close> that selects bucket 42.\<close>

definition example_hash :: "64 word" where
  "example_hash = 0xBEEF00000000002A"

text \<open>The fresh table after one exact-bound store of depth 10 at \<open>example_hash\<close>.\<close>

definition stored_table :: globals where
  "stored_table = storeTTEntry example_hash 796 55 40 10 BOUND_EXACT startpos fresh_table"

text \<open>
  A table at generation 8 whose buckets hold three entries of the current generation, of
  depths 5, 2 and 9, none with the signature of \<open>example_hash\<close>.
\<close>

definition mixed_table :: globals where
  "mixed_table =
     \<lparr> Table =
         \<lparr> buckets = replicate 65536
             \<lparr> slots =
                 [\<lparr> depth = 5, generation = 0x0B, eval = 12, tt_value = 34, move = 796, hash16 = 0x1111 \<rparr>,
                  \<lparr> depth = 2, generation = 0x09, eval = 7, tt_value = - 3, move = 530, hash16 = 0x2222 \<rparr>,
                  \<lparr> depth = 9, generation = 0x0A, eval = 0, tt_value = - 20, move = 1, hash16 = 0x3333 \<rparr>],
               padding = 0 \<rparr>,
           hashMask = 65535, generation = 8 \<rparr>,
       verificationHashes = replicate 196608 zero_hashsrc, passedLookups = 0,
       verificationFailures = 0 \<rparr>"

text \<open>A hash whose top 16 bits are zero; it selects bucket 42.\<close>

definition low_hash :: "64 word" where
  "low_hash = 0x2A"

text \<open>
  A second hash with the bucket and the signature of \<open>example_hash\<close>, and the position
  after 1. e4.
\<close>

definition other_hash :: "64 word" where
  "other_hash = 0xBEEF00000001002A"

definition e4_board :: Board where
  "e4_board =
     \<lparr> rawBoard = [0x0301020504020103, 0x0000000E00000000, 0x0E0E0E0E0E0E0E0E, 0x0E0E0E000E0E0E0E,
                    0x0E0E0E0E0E0E0E0E, 0x0E0E0E0E0E0E0E0E, 0x0808080808080808, 0x0B090A0D0C0A090B],
       castleRooks = 0x8100000000000081, epSquare = 20, turn = 1 \<rparr>"

section \<open>The scans over a bucket\<close>

text \<open>
  A bucket has three slots, so each scan unfolds into at most three tests. The lemmas below
  say what the scans find: the store targets the first slot whose signature matches, and
  the probe stops at that same slot.
\<close>

lemma storeTTEntry_scan_unfold:
  "storeTTEntry_scan h16 gen ss 0 0 =
    (if hash16 (ss ! 0) = h16 then (0, 0)
     else if hash16 (ss ! 1) = h16 then (1, 0)
     else let r1 = (if replacement_score gen (ss ! 0) \<ge> replacement_score gen (ss ! 1) then 1 else 0) in
       if hash16 (ss ! 2) = h16 then (2, r1)
       else (3, if replacement_score gen (ss ! r1) \<ge> replacement_score gen (ss ! 2) then 2 else r1))"
  apply (subst storeTTEntry_scan.simps)
  apply (subst storeTTEntry_scan.simps)
  apply (subst storeTTEntry_scan.simps)
  apply (subst storeTTEntry_scan.simps)
  apply (simp add: TT_BUCKET_NB_def Let_def numeral_2_eq_2)
  done

lemma all_slots: "(\<forall>j<TT_BUCKET_NB. P j) = (P 0 \<and> P 1 \<and> P 2)"
  by (auto simp: TT_BUCKET_NB_def less_Suc_eq numeral_3_eq_3 numeral_2_eq_2)

lemma slot_cases: "j < TT_BUCKET_NB \<Longrightarrow> j = 0 \<or> j = 1 \<or> j = 2"
  by (auto simp: TT_BUCKET_NB_def)

lemma store_target_less: "store_target g hash < TT_BUCKET_NB"
  unfolding store_target_def storeTTEntry_scan_unfold by (simp add: TT_BUCKET_NB_def Let_def)

lemma store_target_first_match:
  assumes "j < TT_BUCKET_NB" "hash16 (bucket_slots g hash ! j) = ucast (drop_bit 48 hash)"
  shows "hash16 (bucket_slots g hash ! store_target g hash) = ucast (drop_bit 48 hash) \<and>
         (\<forall>k < store_target g hash. hash16 (bucket_slots g hash ! k) \<noteq> ucast (drop_bit 48 hash))"
  using slot_cases [OF assms(1)] assms(2)
  unfolding store_target_def storeTTEntry_scan_unfold 
  by (auto simp: TT_BUCKET_NB_def Let_def less_Suc_eq numeral_2_eq_2)

lemma store_target_before:
  "k < store_target g hash \<Longrightarrow> hash16 (bucket_slots g hash ! k) \<noteq> ucast (drop_bit 48 hash)"
  unfolding store_target_def storeTTEntry_scan_unfold 
  by (auto simp: TT_BUCKET_NB_def Let_def less_Suc_eq numeral_2_eq_2 split: if_splits)

lemma getTTEntry_first_match:
  assumes "i < TT_BUCKET_NB" "hash16 (bucket_slots g hash ! i) = ucast (drop_bit 48 hash)"
    "\<forall>k<i. hash16 (bucket_slots g hash ! k) \<noteq> ucast (drop_bit 48 hash)"
  shows "getTTEntry hash board g = getTTEntry_slot hash board g i"
  using slot_cases [OF assms(1)] assms(2,3)
  unfolding getTTEntry_def
  apply (subst getTTEntry_scan.simps)
  apply (subst getTTEntry_scan.simps)
  apply (subst getTTEntry_scan.simps)
  apply (auto simp: TT_BUCKET_NB_def numeral_2_eq_2)
  done

lemma getTTEntry_no_match:
  assumes "\<forall>k<TT_BUCKET_NB. hash16 (bucket_slots g hash ! k) \<noteq> ucast (drop_bit 48 hash)"
  shows "getTTEntry hash board g = (None, g)"
  using assms unfolding getTTEntry_def all_slots
  apply (subst getTTEntry_scan.simps)
  apply (subst getTTEntry_scan.simps)
  apply (subst getTTEntry_scan.simps)
  apply (subst getTTEntry_scan.simps)
  apply (auto simp: TT_BUCKET_NB_def numeral_2_eq_2)
  done

lemma bucket_index_less: "table_ok g \<Longrightarrow> bucket_index g hash < length (buckets (Table g))"
  unfolding table_ok_def bucket_index_def
  by (metis word_and_le1 word_le_nat_alt less_Suc_eq_le Suc_eq_plus1)

lemma bucket_slots_length: "table_ok g \<Longrightarrow> length (bucket_slots g hash) = TT_BUCKET_NB"
  using bucket_index_less [of g hash]
  by (simp add: table_ok_def bucket_slots_def list_all_length)

lemma bucket_slots_set_slot:
  "table_ok g \<Longrightarrow> bucket_slots (set_slot g hash i e) hash = (bucket_slots g hash)[i := e]"
  using bucket_index_less [of g hash]
  by (simp add: set_slot_def bucket_slots_def bucket_index_def Let_def)

lemma set_slot_simps:
  "hashMask (Table (set_slot g hash i e)) = hashMask (Table g)"
  "TTable.generation (Table (set_slot g hash i e)) = TTable.generation (Table g)"
  "verificationHashes (set_slot g hash i e) = verificationHashes g"
  "passedLookups (set_slot g hash i e) = passedLookups g"
  "verificationFailures (set_slot g hash i e) = verificationFailures g"
  "length (buckets (Table (set_slot g hash i e))) = length (buckets (Table g))"
  "bucket_index (set_slot g hash i e) h = bucket_index g h"
  by (simp_all add: set_slot_def Let_def bucket_index_def)

lemma verification_index_eq:
  assumes "table_ok g" "i < TT_BUCKET_NB"
  shows "verification_index g hash i = bucket_index g hash * 3 + i"
proof -
  have "unat (hash AND hashMask (Table g)) \<le> unat (hashMask (Table g))"
    by (metis word_and_le1 word_le_nat_alt)
  then have small: "unat (hash AND hashMask (Table g)) < 2 ^ 58"
    using assms(1) by (simp add: table_ok_def)
  have i: "i < 3" using assms(2) by (simp add: TT_BUCKET_NB_def)
  have "unat ((hash AND hashMask (Table g)) * 3 + word_of_nat i)
      = (unat (hash AND hashMask (Table g)) * 3 + i) mod 2 ^ 64"
    using i by (simp add: unat_word_ariths unat_of_nat mod_simps)
  also have "\<dots> = unat (hash AND hashMask (Table g)) * 3 + i"
    using small i by (intro mod_less) simp
  finally show ?thesis by (simp add: verification_index_def bucket_index_def)
qed

lemma verification_index_less:
  "table_ok g \<Longrightarrow> i < TT_BUCKET_NB \<Longrightarrow> verification_index g hash i < length (verificationHashes g)"
  using bucket_index_less [of g hash]
  by (simp add: verification_index_eq table_ok_def TT_BUCKET_NB_def)

lemma storeTTEntry_written:
  assumes "\<not> store_discarded g hash d bnd"
  shows "storeTTEntry hash m v e d bnd board g =
     (set_slot g hash (store_target g hash) (new_entry (TTable.generation (Table g)) hash m v e d bnd))
       \<lparr> verificationHashes := (verificationHashes g)[verification_index g hash (store_target g hash) :=
                      boardToBoardHashSrc board] \<rparr>"
  using assms by (simp add: storeTTEntry_def Let_def set_slot_simps)

lemma storeTTEntry_discarded:
  assumes "store_discarded g hash d bnd"
  shows "storeTTEntry hash m v e d bnd board g = g"
  using assms by (simp add: storeTTEntry_def Let_def)

lemma gen_refresh:
  fixes T b :: "8 word"
  shows "T OR ((b OR T) AND TT_MASK_BOUND) = T OR (b AND TT_MASK_BOUND)"
  by (auto simp: bit_eq_iff bit_simps)

lemma gen_bound_bits:
  fixes T b :: "8 word"
  assumes "T AND TT_MASK_BOUND = 0"
  shows "(T OR (b AND TT_MASK_BOUND)) AND TT_MASK_BOUND = b AND TT_MASK_BOUND"
proof -
  have "(T OR (b AND TT_MASK_BOUND)) AND TT_MASK_BOUND = (T AND TT_MASK_BOUND) OR (b AND TT_MASK_BOUND)"
    by (auto simp: bit_eq_iff bit_simps)
  then show ?thesis using assms by simp
qed

lemma store_then_probe:
  assumes ok: "table_ok g" and nd: "\<not> store_discarded g hash d bnd"
  shows "getTTEntry hash board (storeTTEntry hash m v e d bnd board g) =
     (Some \<lparr> out_move = m,
              out_value = scast (ucast v :: 16 word),
              out_eval = scast (ucast e :: 16 word),
              out_depth = scast (ucast d :: 8 word),
              out_bound = ucast ((ucast bnd :: 8 word) AND TT_MASK_BOUND),
              out_slot = store_target g hash \<rparr>,
      set_slot ((storeTTEntry hash m v e d bnd board g)\<lparr> passedLookups := passedLookups g + 1 \<rparr>)
        hash (store_target g hash)
        ((new_entry (TTable.generation (Table g)) hash m v e d bnd)
           \<lparr> TTEntry.generation := TTable.generation (Table g) OR ((ucast bnd :: 8 word) AND TT_MASK_BOUND) \<rparr>))"
proof -
  let ?r = "store_target g hash"
  let ?ne = "new_entry (TTable.generation (Table g)) hash m v e d bnd"
  let ?g' = "storeTTEntry hash m v e d bnd board g"
  have g': "?g' = (set_slot g hash ?r ?ne)
       \<lparr> verificationHashes := (verificationHashes g)[verification_index g hash ?r :=
                      boardToBoardHashSrc board] \<rparr>"
    by (rule storeTTEntry_written [OF nd])
  have r: "?r < TT_BUCKET_NB" by (rule store_target_less)
  have len: "length (bucket_slots g hash) = TT_BUCKET_NB" by (rule bucket_slots_length [OF ok])
  have bs: "bucket_slots ?g' hash = (bucket_slots g hash)[?r := ?ne]"
    unfolding g' using bucket_slots_set_slot [OF ok, of hash ?r ?ne]
    by (simp add: bucket_slots_def bucket_index_def set_slot_simps)
  have at_r: "bucket_slots ?g' hash ! ?r = ?ne" using r len by (simp add: bs)
  have m1: "hash16 (bucket_slots ?g' hash ! ?r) = ucast (drop_bit 48 hash)"
    by (simp add: at_r new_entry_def)
  have m2: "\<forall>k < ?r. hash16 (bucket_slots ?g' hash ! k) \<noteq> ucast (drop_bit 48 hash)"
    using store_target_before [of _ g hash] by (simp add: bs)
  have probe: "getTTEntry hash board ?g' = getTTEntry_slot hash board ?g' ?r"
    by (rule getTTEntry_first_match [OF r m1 m2])
  have vi: "verification_index ?g' hash ?r = verification_index g hash ?r"
    unfolding g' by (simp add: verification_index_def bucket_index_def set_slot_simps)
  have vh: "verificationHashes ?g' ! verification_index ?g' hash ?r = boardToBoardHashSrc board"
    unfolding vi using verification_index_less [OF ok r, of hash]
    by (simp add: g')
  have ver: "verifyTTEntry hash ?r board ?g' = (0, ?g'\<lparr> passedLookups := passedLookups g + 1 \<rparr>)"
    unfolding verifyTTEntry_def Let_def vh
    by (simp add: g' set_slot_simps)
  have bs2: "bucket_slots (?g'\<lparr> passedLookups := passedLookups g + 1 \<rparr>) hash ! ?r = ?ne"
    using at_r by (simp add: bucket_slots_def bucket_index_def)
  have gen: "TTable.generation (Table ?g') = TTable.generation (Table g)"
    by (simp add: g' set_slot_simps)
  show ?thesis
    unfolding probe getTTEntry_slot_def ver
    using gen_bound_bits [of "TTable.generation (Table g)" "ucast bnd"] ok
    by (simp add: Let_def bs2 gen new_entry_def gen_refresh table_ok_def)
qed


section \<open>Mate scores\<close>

lemma sint_TBWIN_IN_MAX: "sint TBWIN_IN_MAX = 31000"
  by (simp add: TBWIN_IN_MAX_def TBWIN_def MAX_PLY_def)

lemma sint_neg_TBWIN_IN_MAX: "sint (- TBWIN_IN_MAX) = - 31000"
  by (simp add: TBWIN_IN_MAX_def TBWIN_def MAX_PLY_def)

lemma sint_add_no_overflow:
  fixes a b :: c_int
  assumes "- (2 ^ 31) \<le> sint a + sint b" "sint a + sint b < 2 ^ 31"
  shows "sint (a + b) = sint a + sint b"
  using assms by (simp add: sint_word_ariths signed_take_bit_int_eq_self)

lemma sint_sub_no_overflow:
  fixes a b :: c_int
  assumes "- (2 ^ 31) \<le> sint a - sint b" "sint a - sint b < 2 ^ 31"
  shows "sint (a - b) = sint a - sint b"
  using assms by (simp add: sint_word_ariths signed_take_bit_int_eq_self)

text \<open>
  Claim C6 (mate-score round trip), as amended. For every height \<open>h\<close> in \<open>[0, 128]\<close>: a value
  \<open>v \<ge> 31000\<close> survives \<open>valueToTT\<close> followed by \<open>valueFromTT\<close> provided \<open>v + h\<close> still
  fits the 32-bit \<open>int\<close>, a value \<open>v \<le> -31000\<close> provided \<open>v - h\<close> does, and on a value with
  \<open>|v| < 31000\<close> both functions are the identity.
\<close>

theorem mate_score_roundtrip:
  assumes "0 \<le> sint h" "sint h \<le> 128"
  shows "(31000 \<le> sint v \<and> sint v + sint h < 2 ^ 31 \<longrightarrow> valueFromTT (valueToTT v h) h = v) \<and>
         (sint v \<le> - 31000 \<and> - (2 ^ 31) \<le> sint v - sint h \<longrightarrow> valueFromTT (valueToTT v h) h = v) \<and>
         (- 31000 < sint v \<and> sint v < 31000 \<longrightarrow> valueToTT v h = v \<and> valueFromTT v h = v)"
proof (intro conjI impI)
  assume a: "31000 \<le> sint v \<and> sint v + sint h < 2 ^ 31"
  then have "sint (v + h) = sint v + sint h"
    using assms by (intro sint_add_no_overflow) auto
  then show "valueFromTT (valueToTT v h) h = v"
    using a assms by (simp add: valueFromTT_def valueToTT_def word_sle_eq sint_TBWIN_IN_MAX)
next
  assume a: "sint v \<le> - 31000 \<and> - (2 ^ 31) \<le> sint v - sint h"
  then have "sint (v - h) = sint v - sint h"
    using assms by (intro sint_sub_no_overflow) auto
  then show "valueFromTT (valueToTT v h) h = v"
    using a assms
    by (simp add: valueFromTT_def valueToTT_def word_sle_eq sint_TBWIN_IN_MAX sint_neg_TBWIN_IN_MAX)
next
  assume a: "- 31000 < sint v \<and> sint v < 31000"
  then show "valueToTT v h = v"
    by (simp add: valueToTT_def word_sle_eq sint_TBWIN_IN_MAX sint_neg_TBWIN_IN_MAX)
next
  assume a: "- 31000 < sint v \<and> sint v < 31000"
  then show "valueFromTT v h = v"
    by (simp add: valueFromTT_def word_sle_eq sint_TBWIN_IN_MAX sint_neg_TBWIN_IN_MAX)
qed

text \<open>The theorem at a winning score, a losing score and an ordinary one.\<close>

theorem mate_score_roundtrip_witness:
  "valueFromTT (valueToTT 31500 7) 7 = 31500 \<and> valueToTT 31500 7 = 31507 \<and>
   valueFromTT (valueToTT (- 31990) 128) 128 = - 31990 \<and> valueToTT (- 31990) 128 = - 32118 \<and>
   valueToTT 250 9 = 250 \<and> valueFromTT 250 9 = 250"
  using mate_score_roundtrip [of 7 31500] mate_score_roundtrip [of 128 "- 31990"]
    mate_score_roundtrip [of 9 250]
  by (simp add: valueToTT_def TBWIN_IN_MAX_def TBWIN_def MAX_PLY_def)

text \<open>
  The claim as stated, for every \<open>int\<close>, fails at the top of the range: \<open>INT_MAX + 1\<close> leaves the
  type (wrapping to \<open>INT_MIN\<close> on the two's complement machines the engine runs on), and
  \<open>valueFromTT\<close> then adds the height once more.
\<close>

theorem mate_score_roundtrip_overflow:
  "31000 \<le> sint (2147483647 :: c_int) \<and> 0 \<le> sint (1 :: c_int) \<and> sint (1 :: c_int) \<le> 128 \<and>
   valueToTT 2147483647 1 = - 2147483648 \<and>
   valueFromTT (valueToTT 2147483647 1) 1 \<noteq> 2147483647"
  by (simp add: valueFromTT_def valueToTT_def TBWIN_IN_MAX_def TBWIN_def MAX_PLY_def)

section \<open>The pawn/king cache: lookup and store\<close>

text \<open>
  Claim C9 (pawn/king cache, absent-iff). \<open>getPKEntry\<close> returns the entry at index
  \<open>h >> PKT_HASH_SHIFT\<close> if and only if the hash stored there equals \<open>h\<close>, and \<open>NULL\<close>
  otherwise. \<open>storePKEntry\<close> overwrites the mapped entry unconditionally with the new hash,
  passed-pawn bitboard and evaluation; a probe with the stored hash then finds it, and a
  probe with any other hash of the same index reports absent. The mapped index lies inside
  the entry array.
\<close>

theorem pk_cache_absent_iff:
  assumes "unat (drop_bit sh H1) < length (entries t)"
  shows
    "getPKEntry sh t h =
       (if pkhash (entries t ! unat (drop_bit sh h)) = h then Some (unat (drop_bit sh h)) else None) \<and>
     entries (storePKEntry sh t H1 p e) =
       (entries t)[unat (drop_bit sh H1) := \<lparr> pkhash = H1, passed = p, eval = e \<rparr>] \<and>
     getPKEntry sh (storePKEntry sh t H1 p e) H1 = Some (unat (drop_bit sh H1)) \<and>
     (H2 \<noteq> H1 \<and> drop_bit sh H1 = drop_bit sh H2 \<longrightarrow>
        getPKEntry sh (storePKEntry sh t H1 p e) H2 = None)"
proof -
  let ?i = "unat (drop_bit sh H1)"
  have upd: "(entries t ! ?i)\<lparr> pkhash := H1, passed := p, eval := e \<rparr> = \<lparr> pkhash = H1, passed = p, eval = e \<rparr>"
    by (cases "entries t ! ?i") simp
  have st: "entries (storePKEntry sh t H1 p e) = (entries t)[?i := \<lparr> pkhash = H1, passed = p, eval = e \<rparr>]"
    by (simp add: storePKEntry_def Let_def upd)
  have same: "getPKEntry sh (storePKEntry sh t H1 p e) H1 = Some ?i"
    using assms by (simp add: getPKEntry_def Let_def st)
  have other: "getPKEntry sh (storePKEntry sh t H1 p e) H2 = None"
    if "H2 \<noteq> H1" "drop_bit sh H1 = drop_bit sh H2"
    using assms that by (simp add: getPKEntry_def Let_def st)
  show ?thesis
    using st same other by (simp add: getPKEntry_def Let_def)
qed


text \<open>Two hashes that share their top 16 bits, on a cache of \<open>2 ^ 16\<close> entries.\<close>

theorem pk_cache_absent_iff_witness:
  "unat (drop_bit 48 (0x1234000000000001 :: 64 word)) < length (entries example_pktable) \<and>
   (0x1234000000000002 :: 64 word) \<noteq> 0x1234000000000001 \<and>
   drop_bit 48 (0x1234000000000001 :: 64 word) = drop_bit 48 (0x1234000000000002 :: 64 word) \<and>
   getPKEntry 48 (storePKEntry 48 example_pktable 0x1234000000000001 255 (- 17)) 0x1234000000000001
     = Some 0x1234 \<and>
   getPKEntry 48 (storePKEntry 48 example_pktable 0x1234000000000001 255 (- 17)) 0x1234000000000002
     = None"
proof -
  have a: "unat (drop_bit 48 (0x1234000000000001 :: 64 word)) = 0x1234"
    "drop_bit 48 (0x1234000000000002 :: 64 word) = drop_bit 48 (0x1234000000000001 :: 64 word)"
    by simp_all
  have b: "length (entries example_pktable) = 65536"
    by (simp add: example_pktable_def)
  show ?thesis
    using pk_cache_absent_iff [of 48 "0x1234000000000001" example_pktable
      "0x1234000000000002" 255 "- 17" "0x1234000000000002"]
    by (simp add: a b)
qed

section \<open>Packing: when it loses nothing\<close>

lemma masks:
  "nibble_mask AND high_nibbles = 0"
  "nibble_mask OR high_nibbles = - 1"
  "push_bit 4 nibble_mask = high_nibbles"
  "drop_bit 4 nibble_mask AND nibble_mask = 0"
  "mask 60 AND nibble_mask = nibble_mask"
  "high_nibbles AND nibble_mask = 0"
  by (simp_all add: nibble_mask_def high_nibbles_def mask_numeral)

lemma low_only:
  fixes a :: "64 word"
  assumes "a AND high_nibbles = 0"
  shows "a AND nibble_mask = a"
proof -
  have "a = a AND (nibble_mask OR high_nibbles)" by (simp add: masks)
  also have "\<dots> = (a AND nibble_mask) OR (a AND high_nibbles)" by (simp add: bit.conj_disj_distrib)
  finally show ?thesis using assms by simp
qed

lemma low_only_conv:
  fixes a :: "64 word"
  shows "a AND nibble_mask = a \<longleftrightarrow> a AND high_nibbles = 0"
proof
  assume "a AND nibble_mask = a"
  then have "a AND high_nibbles = (a AND nibble_mask) AND high_nibbles" by simp
  also have "\<dots> = a AND (nibble_mask AND high_nibbles)" by (simp add: and.assoc)
  finally show "a AND high_nibbles = 0" by (simp add: masks)
qed (rule low_only)


lemma push_nibble:
  fixes b :: "64 word"
  assumes "b AND high_nibbles = 0"
  shows "push_bit 4 b AND nibble_mask = 0"
proof -
  have "push_bit 4 b = push_bit 4 (b AND nibble_mask)" using low_only [OF assms] by simp
  also have "\<dots> = push_bit 4 b AND high_nibbles" by (simp add: masks)
  finally have "push_bit 4 b AND nibble_mask = push_bit 4 b AND (high_nibbles AND nibble_mask)"
    by (metis and.assoc)
  then show ?thesis by (simp add: masks)
qed

lemma drop_nibble:
  fixes a :: "64 word"
  assumes "a AND high_nibbles = 0"
  shows "drop_bit 4 a AND nibble_mask = 0"
proof -
  have "drop_bit 4 a = drop_bit 4 (a AND nibble_mask)" using low_only [OF assms] by simp
  also have "\<dots> = drop_bit 4 a AND drop_bit 4 nibble_mask" by simp
  finally have "drop_bit 4 a AND nibble_mask = drop_bit 4 a AND (drop_bit 4 nibble_mask AND nibble_mask)"
    by (metis and.assoc)
  then show ?thesis by (simp add: masks)
qed

lemma drop_push_nibble:
  fixes b :: "64 word"
  shows "drop_bit 4 (push_bit 4 b) AND nibble_mask = b AND nibble_mask"
proof -
  have "drop_bit 4 (push_bit 4 b) = b AND mask 60"
    by (auto simp: bit_eq_iff bit_simps)
  then have "drop_bit 4 (push_bit 4 b) AND nibble_mask = b AND (mask 60 AND nibble_mask)"
    by (simp add: and.assoc)
  then show ?thesis by (simp add: masks)
qed

lemma pack_pair_iff:
  fixes a b :: "64 word"
  shows "((a OR push_bit 4 b) AND nibble_mask = a \<and> drop_bit 4 (a OR push_bit 4 b) AND nibble_mask = b)
     \<longleftrightarrow> (a AND high_nibbles = 0 \<and> b AND high_nibbles = 0)"
proof
  assume ok: "a AND high_nibbles = 0 \<and> b AND high_nibbles = 0"
  have "(a OR push_bit 4 b) AND nibble_mask = (a AND nibble_mask) OR (push_bit 4 b AND nibble_mask)"
    by (simp add: bit.conj_disj_distrib2)
  then have 1: "(a OR push_bit 4 b) AND nibble_mask = a"
    using ok by (simp add: low_only push_nibble)
  have "drop_bit 4 (a OR push_bit 4 b) AND nibble_mask =
      (drop_bit 4 a AND nibble_mask) OR (drop_bit 4 (push_bit 4 b) AND nibble_mask)"
    by (simp add: bit.conj_disj_distrib2)
  then have 2: "drop_bit 4 (a OR push_bit 4 b) AND nibble_mask = b"
    using ok by (simp add: drop_nibble drop_push_nibble low_only)
  show "(a OR push_bit 4 b) AND nibble_mask = a \<and> drop_bit 4 (a OR push_bit 4 b) AND nibble_mask = b"
    using 1 2 by simp
next
  assume eq: "(a OR push_bit 4 b) AND nibble_mask = a \<and> drop_bit 4 (a OR push_bit 4 b) AND nibble_mask = b"
  have "\<And>x :: 64 word. (x AND nibble_mask) AND high_nibbles = 0"
    by (simp add: and.assoc masks)
  then show "a AND high_nibbles = 0 \<and> b AND high_nibbles = 0"
    using eq by metis
qed
lemma castle_bytes:
  fixes c :: "64 word"
  shows "ucast (ucast (c AND 0xFF) :: 8 word) OR (ucast (ucast (drop_bit 56 c AND 0xFF) :: 8 word)) * 0x0100000000000000
     = c AND 0xFF000000000000FF"
proof -
  have m8: "(0xFF :: 64 word) = mask 8" by (simp add: mask_numeral)
  have 1: "(ucast (ucast (c AND 0xFF) :: 8 word) :: 64 word) = c AND mask 8"
    unfolding m8 by (auto simp: bit_eq_iff bit_simps)
  have 2: "(ucast (ucast (drop_bit 56 c AND 0xFF) :: 8 word) :: 64 word) = drop_bit 56 c"
    unfolding m8 by (auto simp: bit_eq_iff bit_simps dest: bit_imp_le_length)
  have 3: "drop_bit 56 c * 0x0100000000000000 = push_bit 56 (drop_bit 56 c)"
    by (simp add: push_bit_eq_mult)
  have 4: "push_bit 56 (drop_bit 56 c) = c AND NOT (mask 56)"
    by (auto simp: bit_eq_iff bit_simps)
  have "(c AND mask 8) OR (c AND NOT (mask 56)) = c AND (mask 8 OR NOT (mask 56))"
    by (simp add: bit.conj_disj_distrib)
  moreover have "(mask 8 OR NOT (mask 56) :: 64 word) = 0xFF000000000000FF"
    by (simp add: mask_numeral)
  ultimately show ?thesis by (simp add: 1 2 3 4)
qed

lemma castle_iff:
  fixes c :: "64 word"
  shows "c AND 0xFF000000000000FF = c \<longleftrightarrow> c AND castle_middle = 0"
proof
  assume "c AND 0xFF000000000000FF = c"
  then have "c AND castle_middle = (c AND 0xFF000000000000FF) AND castle_middle" by simp
  also have "\<dots> = c AND (0xFF000000000000FF AND castle_middle)" by (simp only: and.assoc)
  finally show "c AND castle_middle = 0" by (simp add: castle_middle_def)
next
  assume a: "c AND castle_middle = 0"
  have "(0xFF000000000000FF OR castle_middle :: 64 word) = - 1" by (simp add: castle_middle_def)
  then have "c = c AND (0xFF000000000000FF OR castle_middle)" by (simp only: and.right_neutral)
  also have "\<dots> = (c AND 0xFF000000000000FF) OR (c AND castle_middle)"
    by (simp only: bit.conj_disj_distrib)
  finally show "c AND 0xFF000000000000FF = c" using a by simp
qed
lemma upt4: "[0..<4] = [0, 1, 2, 3]" by (simp add: upt_rec)
lemma upt8: "[0..<8] = [0, 1, 2, 3, 4, 5, 6, 7]" by (simp add: upt_rec)

lemma unpack_iff_nibble_board:
  "(let h = boardToBoardHashSrc b in
      list_all (\<lambda>i. packedSquares h ! i AND 0x0F0F0F0F0F0F0F0F = rawBoard b ! (2 * i) \<and>
                      drop_bit 4 (packedSquares h ! i) AND 0x0F0F0F0F0F0F0F0F = rawBoard b ! (2 * i + 1))
        [0..<4] \<and>
      ucast (BoardHashSrc.castleRooks h ! WHITE) OR push_bit 56 (ucast (BoardHashSrc.castleRooks h ! BLACK))
        = Board.castleRooks b)
   = nibble_board b \<and>
   packing_asserts b = nibble_board b"
proof -
  let ?h = "boardToBoardHashSrc b"
  let ?sq = "\<lambda>i. packedSquares ?h ! i AND 0x0F0F0F0F0F0F0F0F = rawBoard b ! (2 * i) \<and>
                 drop_bit 4 (packedSquares ?h ! i) AND 0x0F0F0F0F0F0F0F0F = rawBoard b ! (2 * i + 1)"
  have c: "ucast (BoardHashSrc.castleRooks ?h ! WHITE) OR
        push_bit 56 (ucast (BoardHashSrc.castleRooks ?h ! BLACK))
      = Board.castleRooks b AND 0xFF000000000000FF"
    using castle_bytes [of "Board.castleRooks b"]
    by (simp add: push_bit_eq_mult boardToBoardHashSrc_def WHITE_def BLACK_def)
  have ps: "packedSquares ?h ! i = rawBoard b ! (2 * i) OR push_bit 4 (rawBoard b ! (2 * i + 1))"
    if "i < 4" for i
    using that by (simp add: boardToBoardHashSrc_def mult.commute del: upt_Suc)
  have sq: "?sq i \<longleftrightarrow>
      (rawBoard b ! (2 * i) AND high_nibbles = 0 \<and> rawBoard b ! (2 * i + 1) AND high_nibbles = 0)"
    if "i < 4" for i
    unfolding ps [OF that] by (rule pack_pair_iff [unfolded nibble_mask_def])
  have squares: "list_all ?sq [0..<4] \<longleftrightarrow>
      list_all (\<lambda>i. rawBoard b ! i AND high_nibbles = 0) [0..<8]"
    unfolding upt4 upt8 using sq [of 0] sq [of 1] sq [of 2] sq [of 3]
    by (simp del: drop_bit_or)
  have 1: "(list_all ?sq [0..<4] \<and>
      ucast (BoardHashSrc.castleRooks ?h ! WHITE) OR push_bit 56 (ucast (BoardHashSrc.castleRooks ?h ! BLACK))
        = Board.castleRooks b)
   = nibble_board b"
    unfolding squares c nibble_board_def castle_iff ..
  have 2: "packing_asserts b = nibble_board b"
    unfolding 1 [symmetric] packing_asserts_def Let_def
    by (simp add: nibble_mask_def push_bit_eq_mult mult.commute boardToBoardHashSrc_def del: drop_bit_or upt_Suc)
  show ?thesis using 1 2 unfolding Let_def by simp
qed

subsection \<open>Boards of piece codes\<close>

lemma piece_code_nibble:
  assumes "piece_code p"
  shows "p AND mask 4 = p"
proof -
  have "p < 2 ^ 4" using assms by (auto simp: piece_code_def word_le_nat_alt word_less_nat_alt)
  then show ?thesis by (rule less_mask_eq)
qed

lemma byte_high_clear:
  fixes w :: "64 word"
  assumes "(ucast (drop_bit k w) :: 8 word) AND mask 4 = ucast (drop_bit k w)"
  shows "w AND push_bit (k + 4) (mask 4) = 0"
proof (rule bit_eqI)
  fix n
  have *: "\<not> bit w (k + m)" if "4 \<le> m" "m < 8" for m
  proof
    assume "bit w (k + m)"
    then have "bit (ucast (drop_bit k w) :: 8 word) m"
      using that by (simp add: bit_simps)
    then have "bit ((ucast (drop_bit k w) :: 8 word) AND mask 4) m"
      using assms by simp
    then show False using that by (simp add: bit_simps)
  qed
  show "bit (w AND push_bit (k + 4) (mask 4)) n = bit (0 :: 64 word) n"
  proof (cases "k + 4 \<le> n \<and> n < k + 8")
    case True
    then have "\<not> bit w (k + (n - k))" by (intro *) auto
    then show ?thesis using True by (simp add: bit_simps)
  next
    case False
    then show ?thesis by (auto simp: bit_simps)
  qed
qed

lemma high_nibbles_split:
  "high_nibbles = push_bit (0 + 4) (mask 4) OR push_bit (8 + 4) (mask 4) OR push_bit (16 + 4) (mask 4) OR
     push_bit (24 + 4) (mask 4) OR push_bit (32 + 4) (mask 4) OR push_bit (40 + 4) (mask 4) OR
     push_bit (48 + 4) (mask 4) OR push_bit (56 + 4) (mask 4)"
  by (simp add: high_nibbles_def mask_numeral push_bit_eq_mult)

lemma word_of_piece_codes:
  fixes w :: "64 word"
  assumes "list_all (\<lambda>j. piece_code (square_byte w j)) [0..<8]"
  shows "w AND high_nibbles = 0"
proof -
  have "w AND push_bit (8 * j + 4) (mask 4) = 0" if "j < 8" for j
  proof -
    have "piece_code (square_byte w j)"
      using assms that by (simp add: list_all_iff)
    then show ?thesis
      unfolding square_byte_def by (intro byte_high_clear piece_code_nibble)
  qed
  from this [of 0] this [of 1] this [of 2] this [of 3] this [of 4] this [of 5] this [of 6] this [of 7]
  show ?thesis
    unfolding high_nibbles_split by (simp only: bit.conj_disj_distrib) simp
qed

lemma valid_board_nibble_board:
  assumes "valid_board b"
  shows "nibble_board b"
proof -
  have "rawBoard b ! i AND high_nibbles = 0" if "i < 8" for i
  proof -
    have "list_all (\<lambda>j. piece_code (square_byte (rawBoard b ! i) j)) [0..<8]"
      using assms that by (simp add: valid_board_def list_all_length)
    then show ?thesis by (rule word_of_piece_codes)
  qed
  then show ?thesis
    using assms by (simp add: nibble_board_def valid_board_def list_all_iff)
qed

text \<open>
  Claim C7 (packing losslessness). For every board of the program (64 squares that hold piece
  codes, castling rooks on the first and eighth rank), unpacking the four packed words gives
  back the eight raw words: \<open>packedSquares[i] & 0x0F0F0F0F0F0F0F0F\<close> is raw word \<open>2i\<close> and
  \<open>(packedSquares[i] >> 4) & 0x0F0F0F0F0F0F0F0F\<close> is raw word \<open>2i + 1\<close>, for \<open>i\<close> in 0..3;
  \<open>castleRooks[WHITE] | (castleRooks[BLACK] << 56)\<close> gives back the castling field; and the
  assertions of \<open>boardToBoardHashSrc\<close> hold.
\<close>

theorem packing_lossless:
  assumes "valid_board b"
  shows "let h = boardToBoardHashSrc b in
      list_all (\<lambda>i. packedSquares h ! i AND 0x0F0F0F0F0F0F0F0F = rawBoard b ! (2 * i) \<and>
                      drop_bit 4 (packedSquares h ! i) AND 0x0F0F0F0F0F0F0F0F = rawBoard b ! (2 * i + 1))
        [0..<4] \<and>
      ucast (BoardHashSrc.castleRooks h ! WHITE) OR push_bit 56 (ucast (BoardHashSrc.castleRooks h ! BLACK))
        = Board.castleRooks b \<and>
      packing_asserts b"
  using unpack_iff_nibble_board [of b] valid_board_nibble_board [OF assms]
  unfolding Let_def by blast

lemma valid_board_startpos: "valid_board startpos"
  by (simp add: valid_board_def startpos_def upt8 square_byte_def piece_code_def castle_middle_def
      drop_bit_eq_div)

text \<open>The initial position is such a board; its two black ranks come back from the last word.\<close>

theorem packing_lossless_witness:
  "valid_board startpos \<and> packing_asserts startpos \<and>
   boardToBoardHashSrc startpos =
     \<lparr> packedSquares = [0x0301020504020103, 0xEEEEEEEEEEEEEEEE, 0xEEEEEEEEEEEEEEEE, 0xB898A8D8C8A898B8],
       castleRooks = [0x81, 0x81], epSquare = - 1, turn = 0, padding = 0 \<rparr> \<and>
   packedSquares (boardToBoardHashSrc startpos) ! 3 AND 0x0F0F0F0F0F0F0F0F = rawBoard startpos ! 6 \<and>
   drop_bit 4 (packedSquares (boardToBoardHashSrc startpos) ! 3) AND 0x0F0F0F0F0F0F0F0F
     = rawBoard startpos ! 7 \<and>
   ucast (BoardHashSrc.castleRooks (boardToBoardHashSrc startpos) ! WHITE) OR
     push_bit 56 (ucast (BoardHashSrc.castleRooks (boardToBoardHashSrc startpos) ! BLACK))
     = Board.castleRooks startpos"
proof -
  have h: "boardToBoardHashSrc startpos =
     \<lparr> packedSquares = [0x0301020504020103, 0xEEEEEEEEEEEEEEEE, 0xEEEEEEEEEEEEEEEE, 0xB898A8D8C8A898B8],
       castleRooks = [0x81, 0x81], epSquare = - 1, turn = 0, padding = 0 \<rparr>"
    by (simp add: boardToBoardHashSrc_def startpos_def upt4 drop_bit_eq_div)
  show ?thesis
    using packing_lossless [OF valid_board_startpos] valid_board_startpos
    by (simp add: Let_def upt4 h)
qed

section \<open>Sizing the table\<close>

lemma unat_bucket_bytes:
  assumes "k \<le> 58"
  shows "unat (push_bit k 1 * sizeof_TTBucket :: 64 word) = 2 ^ (k + 5)"
proof -
  have "(push_bit k 1 * sizeof_TTBucket :: 64 word) = 2 ^ (k + 5)"
    by (simp add: sizeof_TTBucket_def push_bit_eq_mult power_add)
  moreover have "unat (2 ^ (k + 5) :: 64 word) = 2 ^ (k + 5)"
  proof -
    have "(2 ^ (k + 5) :: 64 word) = of_nat (2 ^ (k + 5))" by simp
    moreover have "(2 :: nat) ^ (k + 5) < 2 ^ 64"
      using assms by (intro power_strict_increasing) auto
    ultimately show ?thesis
      by (simp only: unat_of_nat) (simp add: word_size)
  qed
  ultimately show ?thesis by simp
qed

lemma unat_half_budget: "unat (megabytes * MB div 2 :: 64 word) < 2 ^ 63"
proof -
  have "unat (megabytes * MB div 2) = unat (megabytes * MB) div 2"
    by (simp add: unat_div)
  moreover have "unat (megabytes * MB) < 2 ^ 64"
    using unsigned_less [of "megabytes * MB"] by simp
  ultimately show ?thesis by simp
qed

lemma keySize_search_result:
  assumes "k \<le> 58"
  shows "\<exists>k'. keySize_search megabytes k = Some k' \<and> k \<le> k' \<and> k' \<le> 58 \<and>
           unat (megabytes * MB div 2) < 2 ^ (k' + 5) \<and>
           (\<forall>j. k \<le> j \<and> j < k' \<longrightarrow> 2 ^ (j + 5) \<le> unat (megabytes * MB div 2))"
  using assms
proof (induction "58 - k" arbitrary: k)
  case 0
  then have k: "k = 58" by simp
  have "\<not> push_bit k 1 * sizeof_TTBucket \<le> megabytes * MB div 2"
    using unat_half_budget [of megabytes] unat_bucket_bytes [of k] k
    by (simp add: word_le_nat_alt)
  then have "keySize_search megabytes k = Some k"
    using k by (subst keySize_search.simps) simp
  then show ?case using k unat_half_budget [of megabytes] by auto
next
  case (Suc n)
  then have k: "k < 58" by simp
  show ?case
  proof (cases "push_bit k 1 * sizeof_TTBucket \<le> megabytes * MB div 2")
    case True
    then have step: "keySize_search megabytes k = keySize_search megabytes (k + 1)"
      using k by (subst keySize_search.simps) simp
    have here: "2 ^ (k + 5) \<le> unat (megabytes * MB div 2)"
      using True unat_bucket_bytes [of k] k by (simp add: word_le_nat_alt)
    from Suc have "n = 58 - (k + 1)" "k + 1 \<le> 58" by simp_all
    from Suc.hyps(1) [OF this] obtain k' where k':
      "keySize_search megabytes (k + 1) = Some k'" "k + 1 \<le> k'" "k' \<le> 58"
      "unat (megabytes * MB div 2) < 2 ^ (k' + 5)"
      "\<forall>j. k + 1 \<le> j \<and> j < k' \<longrightarrow> 2 ^ (j + 5) \<le> unat (megabytes * MB div 2)"
      by blast
    have "\<forall>j. k \<le> j \<and> j < k' \<longrightarrow> 2 ^ (j + 5) \<le> unat (megabytes * MB div 2)"
    proof (intro allI impI)
      fix j assume "k \<le> j \<and> j < k'"
      then consider "j = k" | "k + 1 \<le> j \<and> j < k'" by linarith
      then show "2 ^ (j + 5) \<le> unat (megabytes * MB div 2)"
        using here k'(5) by cases auto
    qed
    then show ?thesis using step k' by auto
  next
    case False
    then have "keySize_search megabytes k = Some k"
      using k by (subst keySize_search.simps) simp
    moreover have "unat (megabytes * MB div 2) < 2 ^ (k + 5)"
      using False unat_bucket_bytes [of k] k by (simp add: word_le_nat_alt)
    ultimately show ?thesis using k by auto
  qed
qed

lemma unat_two_power:
  assumes "k < 64"
  shows "unat (2 ^ k :: 64 word) = 2 ^ k"
proof -
  have "(2 ^ k :: 64 word) = of_nat (2 ^ k)" by simp
  moreover have "(2 :: nat) ^ k < 2 ^ 64"
    using assms by (intro power_strict_increasing) auto
  ultimately show ?thesis
    by (simp only: unat_of_nat) (simp add: word_size)
qed

lemma bucket_bytes_word:
  "(push_bit k 1 * sizeof_TTBucket :: 64 word) = 2 ^ (k + 5)"
  by (simp add: sizeof_TTBucket_def push_bit_eq_mult power_add)

lemma initTT_result:
  assumes "keySize_search megabytes 16 = Some k" "k \<le> 58"
  shows "initTT heap megabytes g =
     (if grants_bytes heap (2 ^ (k + 5)) then
        Some (g\<lparr> Table := (Table g)\<lparr> buckets := replicate (2 ^ k) zero_bucket, hashMask := 2 ^ k - 1 \<rparr>,
                 verificationHashes :=
                   (if grants_records heap (3 * 2 ^ k) then replicate (3 * 2 ^ k) zero_hashsrc
                    else []) \<rparr>)
      else None)"
proof -
  have "unat (2 ^ k :: 64 word) = 2 ^ k" using assms(2) by (intro unat_two_power) simp
  then show ?thesis
    using assms(1) bucket_bytes_word [of k]
    by (simp add: initTT_def clearTT_def Let_def push_bit_eq_mult)
qed

lemma keySize_search_2: "keySize_search 2 16 = Some 16"
  by (subst keySize_search.simps) (simp add: sizeof_TTBucket_def MB_def)

lemma keySize_search_overflow: "keySize_search 17592186044416 16 = Some 16"
  by (subst keySize_search.simps) (simp add: sizeof_TTBucket_def MB_def)

lemma initTT_2: "initTT example_heap 2 start_globals = Some fresh_table"
  using initTT_result [OF keySize_search_2, of example_heap start_globals]
  by (simp add: start_globals_def fresh_table_def example_heap_def)

text \<open>
  Claim C5 (sizing law), evaluated where the code departs from it. The budget
  \<open>megabytes * MB\<close> is computed in 64 bits: for a request of \<open>2 ^ 44\<close> megabytes it wraps
  around to 0, the key-size search stops at once at 16, the assertion that follows the loop
  is false, and \<open>initTT\<close> builds the table of 2 MB, which is not more than half of the
  \<open>2 ^ 64\<close> bytes requested.
\<close>

theorem table_size_overflow:
  "(17592186044416 :: 64 word) * MB = 0 \<and>
   keySize_search 17592186044416 16 = Some 16 \<and>
   \<not> initTT_asserts 17592186044416 16 \<and>
   initTT example_heap 17592186044416 start_globals = Some fresh_table \<and>
   unat ((hashMask (Table fresh_table) + 1) * sizeof_TTBucket) = 2 * 2 ^ 20 \<and>
   \<not> (17592186044416 :: nat) * 2 ^ 20 div 2 < 2 * 2 ^ 20"
proof -
  have "initTT example_heap 17592186044416 start_globals = Some fresh_table"
    using initTT_result [OF keySize_search_overflow, of example_heap start_globals]
    by (simp add: start_globals_def fresh_table_def example_heap_def)
  moreover have "\<not> initTT_asserts 17592186044416 16"
    by (simp add: initTT_asserts_def MB_def sizeof_TTBucket_def)
  moreover have "unat ((hashMask (Table fresh_table) + 1) * sizeof_TTBucket) = 2 * 2 ^ 20"
    by (simp add: fresh_table_def sizeof_TTBucket_def)
  ultimately show ?thesis
    by (simp add: keySize_search_overflow) (simp add: MB_def)
qed

section \<open>The sizing law below the overflow\<close>

text \<open>
  For every requested size of \<open>m\<close> megabytes with \<open>2 \<le> m < 2 ^ 44\<close> (so that \<open>m * 2 ^ 20\<close>
  fits 64 bits), the key-size search that starts at 16 stops at the first key size \<open>k\<close> with
  \<open>2 ^ k * 32 > m * 2 ^ 20 / 2\<close>, the assertions of \<open>initTT\<close> hold, and the table size
  \<open>2 ^ (k + 5)\<close> is at most \<open>m * 2 ^ 20\<close> and more than \<open>m * 2 ^ 20 / 2\<close>. When the allocator
  grants that many bytes, \<open>initTT\<close> returns a table of \<open>2 ^ k\<close> buckets whose size in bytes
  \<open>(hashMask + 1) * sizeof(TTBucket)\<close> is \<open>2 ^ (k + 5)\<close>; when it does not, the behaviour of
  \<open>initTT\<close> is undefined.
\<close>

theorem table_size_law:
  assumes "2 \<le> unat megabytes" "unat megabytes < 2 ^ 44"
  shows "\<exists>k. keySize_search megabytes 16 = Some k \<and> 16 \<le> k \<and> k \<le> 58 \<and>
           initTT_asserts megabytes k \<and>
           2 ^ (k + 5) \<le> unat megabytes * 2 ^ 20 \<and>
           unat megabytes * 2 ^ 20 div 2 < 2 ^ (k + 5) \<and>
           (\<forall>j. 16 \<le> j \<and> j < k \<longrightarrow> 2 ^ j * 32 \<le> unat megabytes * 2 ^ 20 div 2) \<and>
           (if grants_bytes heap (2 ^ (k + 5))
            then \<exists>g'. initTT heap megabytes g = Some g' \<and>
                   length (buckets (Table g')) = 2 ^ k \<and>
                   unat ((hashMask (Table g') + 1) * sizeof_TTBucket) = 2 ^ (k + 5)
            else initTT heap megabytes g = None)"
proof -
  have budget: "unat (megabytes * MB) = unat megabytes * 2 ^ 20"
  proof -
    have "unat megabytes * 2 ^ 20 < 2 ^ 64" using assms(2) by simp
    then show ?thesis
      by (simp add: MB_def unat_word_ariths push_bit_eq_mult)
  qed
  have half: "unat (megabytes * MB div 2) = unat megabytes * 2 ^ 20 div 2"
    by (simp add: unat_div budget)
  obtain k where k: "keySize_search megabytes 16 = Some k" "16 \<le> k" "k \<le> 58"
      "unat (megabytes * MB div 2) < 2 ^ (k + 5)"
      "\<forall>j. 16 \<le> j \<and> j < k \<longrightarrow> 2 ^ (j + 5) \<le> unat (megabytes * MB div 2)"
    using keySize_search_result [of 16 megabytes] by auto
  let ?g' = "g\<lparr> Table := (Table g)\<lparr> buckets := replicate (2 ^ k) zero_bucket, hashMask := 2 ^ k - 1 \<rparr>,
              verificationHashes :=
                (if grants_records heap (3 * 2 ^ k) then replicate (3 * 2 ^ k) zero_hashsrc else []) \<rparr>"
  note init = initTT_result [OF k(1,3), of heap g]
  have bytes: "unat ((hashMask (Table ?g') + 1) * sizeof_TTBucket) = 2 ^ (k + 5)"
    using unat_bucket_bytes [OF k(3)] by (simp add: push_bit_eq_mult)
  have upper: "2 ^ (k + 5) \<le> unat megabytes * 2 ^ 20"
  proof (cases "k = 16")
    case True
    then show ?thesis using assms(1) by simp
  next
    case False
    then have "16 \<le> k - 1 \<and> k - 1 < k" using k(2) by simp
    then have "2 ^ (k - 1 + 5) \<le> unat megabytes * 2 ^ 20 div 2" using k(5) half by metis
    moreover have "(2 :: nat) ^ (k + 5) = 2 * 2 ^ (k - 1 + 5)"
      using k(2) by (simp flip: power_Suc)
    ultimately show ?thesis by simp
  qed
  have scan: "\<forall>j. 16 \<le> j \<and> j < k \<longrightarrow> 2 ^ j * 32 \<le> unat megabytes * 2 ^ 20 div 2"
    using k(5) half by (simp add: power_add)
  have a1: "(push_bit 16 1 * sizeof_TTBucket :: 64 word) = 2 * MB"
    by (simp add: sizeof_TTBucket_def MB_def)
  have a2: "push_bit k 1 * sizeof_TTBucket \<le> megabytes * MB"
    using upper unat_bucket_bytes [OF k(3)] budget by (simp add: word_le_nat_alt)
  have asserts: "initTT_asserts megabytes k"
    unfolding initTT_asserts_def using a1 a2 by simp
  have alloc: "if grants_bytes heap (2 ^ (k + 5))
      then \<exists>g'. initTT heap megabytes g = Some g' \<and>
             length (buckets (Table g')) = 2 ^ k \<and>
             unat ((hashMask (Table g') + 1) * sizeof_TTBucket) = 2 ^ (k + 5)
      else initTT heap megabytes g = None"
  proof (cases "grants_bytes heap (2 ^ (k + 5))")
    case True
    then have "initTT heap megabytes g = Some ?g'" using init by simp
    then show ?thesis using True bytes by simp
  next
    case False
    then show ?thesis using init by simp
  qed
  show ?thesis
    using k(1,2,3) asserts upper k(4) half scan alloc
    by (intro exI [of _ k]) simp
qed

text \<open>
  A request of 16 MB yields a table of exactly 16 MB. A request of \<open>2 ^ 43\<close> MB asks the
  allocator for \<open>2 ^ 63\<close> bytes, which the example allocator does not grant.
\<close>

theorem table_size_law_witness:
  "2 \<le> unat (16 :: 64 word) \<and> unat (16 :: 64 word) < 2 ^ 44 \<and>
   (\<exists>g'. initTT example_heap 16 start_globals = Some g' \<and>
      unat ((hashMask (Table g') + 1) * sizeof_TTBucket) = 16 * 2 ^ 20) \<and>
   2 \<le> unat (8796093022208 :: 64 word) \<and> unat (8796093022208 :: 64 word) < 2 ^ 44 \<and>
   initTT example_heap 8796093022208 start_globals = None"
proof -
  obtain k where r:
      "2 ^ (k + 5) \<le> unat (16 :: 64 word) * 2 ^ 20"
      "unat (16 :: 64 word) * 2 ^ 20 div 2 < 2 ^ (k + 5)"
      "if grants_bytes example_heap (2 ^ (k + 5))
       then \<exists>g'. initTT example_heap 16 start_globals = Some g' \<and>
              length (buckets (Table g')) = 2 ^ k \<and>
              unat ((hashMask (Table g') + 1) * sizeof_TTBucket) = 2 ^ (k + 5)
       else initTT example_heap 16 start_globals = None"
    using table_size_law [of 16 example_heap start_globals] by auto
  have "(2 :: nat) ^ (k + 5) \<le> 2 ^ 24" "(2 :: nat) ^ 23 < 2 ^ (k + 5)"
    using r(1,2) by simp_all
  then have "k + 5 \<le> 24" "23 < k + 5"
    by (simp_all only: power_increasing_iff power_strict_increasing_iff one_less_numeral_iff semiring_norm)
  then have k: "k + 5 = 24" by simp
  have "grants_bytes example_heap (2 ^ 24)" by (simp add: example_heap_def)
  then obtain g' where "initTT example_heap 16 start_globals = Some g'"
      "unat ((hashMask (Table g') + 1) * sizeof_TTBucket) = 2 ^ 24"
    using r(3) unfolding k by auto
  then have small: "\<exists>g'. initTT example_heap 16 start_globals = Some g' \<and>
      unat ((hashMask (Table g') + 1) * sizeof_TTBucket) = 16 * 2 ^ 20"
    by simp
  obtain k' where r':
      "2 ^ (k' + 5) \<le> unat (8796093022208 :: 64 word) * 2 ^ 20"
      "unat (8796093022208 :: 64 word) * 2 ^ 20 div 2 < 2 ^ (k' + 5)"
      "if grants_bytes example_heap (2 ^ (k' + 5))
       then \<exists>g'. initTT example_heap 8796093022208 start_globals = Some g' \<and>
              length (buckets (Table g')) = 2 ^ k' \<and>
              unat ((hashMask (Table g') + 1) * sizeof_TTBucket) = 2 ^ (k' + 5)
       else initTT example_heap 8796093022208 start_globals = None"
    using table_size_law [of 8796093022208 example_heap start_globals] by auto
  have "(2 :: nat) ^ (k' + 5) \<le> 2 ^ 63" "(2 :: nat) ^ 62 < 2 ^ (k' + 5)"
    using r'(1,2) by simp_all
  then have "k' + 5 \<le> 63" "62 < k' + 5"
    by (simp_all only: power_increasing_iff power_strict_increasing_iff one_less_numeral_iff semiring_norm)
  then have k': "k' + 5 = 63" by simp
  have "\<not> grants_bytes example_heap (2 ^ 63)" by (simp add: example_heap_def)
  then have large: "initTT example_heap 8796093022208 start_globals = None"
    using r'(3) unfolding k' by simp
  show ?thesis using small large by simp
qed

section \<open>The occupancy estimate\<close>

lemma three_slots: "length ss = TT_BUCKET_NB \<Longrightarrow> ss = [ss ! 0, ss ! 1, ss ! 2]"
  by (auto simp: TT_BUCKET_NB_def list_eq_iff_nth_eq less_Suc_eq numeral_3_eq_3 numeral_2_eq_2)

lemma hashfull_slots_count:
  assumes "length (slots (buckets (Table g) ! i)) = TT_BUCKET_NB"
  shows "hashfull_slots g i 0 used =
     used + of_nat (length (filter (slot_used (TTable.generation (Table g))) (slots (buckets (Table g) ! i))))"
proof -
  let ?P = "slot_used (TTable.generation (Table g))"
  let ?ss = "slots (buckets (Table g) ! i)"
  have unfold: "hashfull_slots g i 0 used =
      used + (if ?P (?ss ! 0) then 1 else 0) + (if ?P (?ss ! 1) then 1 else 0)
           + (if ?P (?ss ! 2) then 1 else 0)"
    apply (subst hashfull_slots.simps)
    apply (subst hashfull_slots.simps)
    apply (subst hashfull_slots.simps)
    apply (subst hashfull_slots.simps)
    apply (simp add: TT_BUCKET_NB_def numeral_2_eq_2)
    done
  have "length (filter ?P ?ss) = length (filter ?P [?ss ! 0, ?ss ! 1, ?ss ! 2])"
    using three_slots [OF assms] by simp
  then show ?thesis unfolding unfold by simp
qed

lemma hashfull_buckets_count:
  assumes "i \<le> 1000" "1000 \<le> length (buckets (Table g))"
    "list_all (\<lambda>b. length (slots b) = TT_BUCKET_NB) (buckets (Table g))"
  shows "hashfull_buckets g i used =
     used + of_nat (length (filter (slot_used (TTable.generation (Table g)))
                      (concat (map slots (drop i (take 1000 (buckets (Table g))))))))"
  using assms(1)
proof (induction "1000 - i" arbitrary: i used)
  case 0
  then have "i = 1000" by simp
  then show ?case by (subst hashfull_buckets.simps) simp
next
  case (Suc n)
  then have i: "i < 1000" by simp
  let ?bs = "buckets (Table g)"
  have len: "length (slots (?bs ! i)) = TT_BUCKET_NB"
    using assms(2,3) i by (simp add: list_all_length)
  have split: "drop i (take 1000 ?bs) = ?bs ! i # drop (i + 1) (take 1000 ?bs)"
    using assms(2) i by (simp add: Cons_nth_drop_Suc [symmetric])
  from Suc have "n = 1000 - (i + 1)" "i + 1 \<le> 1000" by simp_all
  from Suc.hyps(1) [OF this]
  have IH: "\<And>u. hashfull_buckets g (i + 1) u =
     u + of_nat (length (filter (slot_used (TTable.generation (Table g)))
                      (concat (map slots (drop (i + 1) (take 1000 ?bs))))))" .
  have "hashfull_buckets g i used = hashfull_buckets g (i + 1) (hashfull_slots g i 0 used)"
    using i by (subst hashfull_buckets.simps) simp
  then show ?case
    unfolding IH hashfull_slots_count [OF len] split by simp
qed

lemma used_slots_le:
  assumes "list_all (\<lambda>b. length (slots b) = TT_BUCKET_NB) (buckets (Table g))"
  shows "used_slots g \<le> 3000"
proof -
  let ?bs = "take 1000 (buckets (Table g))"
  have each: "\<forall>b \<in> set ?bs. length (slots b) = 3"
    using assms by (auto simp: list_all_iff TT_BUCKET_NB_def dest: in_set_takeD)
  have "length (concat (map slots ?bs)) = sum_list (map (\<lambda>b. length (slots b)) ?bs)"
    by (simp add: length_concat comp_def)
  also have "\<dots> = sum_list (map (\<lambda>b. 3) ?bs)"
    using each by (intro arg_cong [where f = sum_list] map_cong) auto
  also have "\<dots> = 3 * length ?bs" by (simp add: sum_list_triv)
  also have "\<dots> \<le> 3000" by simp
  finally have "length (concat (map slots ?bs)) \<le> 3000" .
  then show ?thesis
    unfolding used_slots_def
    using length_filter_le [of "slot_used (TTable.generation (Table g))" "concat (map slots ?bs)"]
    by linarith
qed

lemma sint_small_nat:
  assumes "n \<le> 3000"
  shows "sint (of_nat n :: c_int) = int n"
proof -
  have "sint (of_nat n :: c_int) = signed_take_bit 31 (int n)"
    by (simp add: signed_of_nat)
  also have "\<dots> = int n"
    using assms by (intro signed_take_bit_int_eq_self) auto
  finally show ?thesis .
qed

text \<open>
  Claim C8 (hash-fullness estimate). On a table of at least 1000 buckets, \<open>hashfullTT\<close>
  returns exactly \<open>N / 3\<close>, the integer quotient by the bucket width \<open>TT_BUCKET_NB\<close>, where
  \<open>N\<close> is the number of slots among the first 1000 buckets (3000 slots, so \<open>N \<le> 3000\<close>)
  whose bound bits are not \<open>BOUND_NONE\<close> and whose age bits equal \<open>Table.generation\<close>.
\<close>

theorem hashfull_estimate:
  assumes "table_ok g" "1000 \<le> length (buckets (Table g))"
  shows "sint (hashfullTT g) = int (used_slots g div 3) \<and> used_slots g \<le> 3000"
proof -
  have all3: "list_all (\<lambda>b. length (slots b) = TT_BUCKET_NB) (buckets (Table g))"
    using assms(1) by (simp add: table_ok_def)
  have le: "used_slots g \<le> 3000" by (rule used_slots_le [OF all3])
  have count: "hashfull_buckets g 0 0 = of_nat (used_slots g)"
    using hashfull_buckets_count [OF _ assms(2) all3, of 0 0] by (simp add: used_slots_def)
  have s: "sint (of_nat (used_slots g) :: c_int) = int (used_slots g)"
    using le by (rule sint_small_nat)
  have "sint (hashfullTT g) = sint (word_of_int (int (used_slots g) sdiv 3) :: c_int)"
    by (simp add: hashfullTT_def count s TT_BUCKET_NB_def)
  also have "int (used_slots g) sdiv 3 = int (used_slots g div 3)"
    by (cases "used_slots g = 0") (simp_all add: signed_divide_int_def zdiv_int)
  also have "sint (word_of_int (int (used_slots g div 3)) :: c_int) = int (used_slots g div 3)"
    using le sint_small_nat [of "used_slots g div 3"] by simp
  finally show ?thesis using le by simp
qed
lemma filter_concat_replicate:
  "length (filter P (concat (replicate n xs))) = n * length (filter P xs)"
  by (induction n) simp_all

text \<open>With one current entry in each of the 1000 sampled buckets the estimate is 333.\<close>

theorem hashfull_estimate_witness:
  "table_ok third_full_table \<and> 1000 \<le> length (buckets (Table third_full_table)) \<and>
   used_slots third_full_table = 1000 \<and> sint (hashfullTT third_full_table) = 333"
proof -
  have ok: "table_ok third_full_table"
    by (simp add: table_ok_def third_full_table_def list_all_length TT_BUCKET_NB_def TT_MASK_BOUND_def)
  have len: "1000 \<le> length (buckets (Table third_full_table))"
    by (simp add: third_full_table_def)
  have n: "used_slots third_full_table = 1000"
    by (simp add: used_slots_def third_full_table_def filter_concat_replicate slot_used_def
        zero_entry_def TT_MASK_BOUND_def TT_MASK_AGE_def BOUND_NONE_def)
  show ?thesis
    using hashfull_estimate [OF ok len] ok len n by simp
qed

section \<open>Field widths\<close>

text \<open>
  Storing an \<open>int\<close> in a narrower signed field keeps it modulo \<open>2 ^ w\<close>; reading the field
  back gives the \<open>int\<close> again exactly when it fitted.
\<close>

lemma sint_narrow16:
  fixes x :: c_int
  shows "sint (scast (ucast x :: 16 word) :: c_int) = signed_take_bit 15 (sint x)"
proof -
  have "sint (scast (ucast x :: 16 word) :: c_int) = signed_take_bit 31 (sint (ucast x :: 16 word))"
    by (simp only: signed_scast_eq) simp
  also have "sint (ucast x :: 16 word) = signed_take_bit 15 (uint x)"
    by (simp only: signed_ucast_eq) simp
  also have "uint x = take_bit 32 (sint x)" by (simp only: uint_sint) simp
  finally show ?thesis by (simp add: signed_take_bit_take_bit)
qed

lemma sint_narrow8:
  fixes x :: c_int
  shows "sint (scast (ucast x :: 8 word) :: c_int) = signed_take_bit 7 (sint x)"
proof -
  have "sint (scast (ucast x :: 8 word) :: c_int) = signed_take_bit 31 (sint (ucast x :: 8 word))"
    by (simp only: signed_scast_eq) simp
  also have "sint (ucast x :: 8 word) = signed_take_bit 7 (uint x)"
    by (simp only: signed_ucast_eq) simp
  also have "uint x = take_bit 32 (sint x)" by (simp only: uint_sint) simp
  finally show ?thesis by (simp add: signed_take_bit_take_bit)
qed

lemma narrow16_fits:
  fixes x :: c_int
  shows "(scast (ucast x :: 16 word) :: c_int) = x \<longleftrightarrow> - (2 ^ 15) \<le> sint x \<and> sint x < 2 ^ 15"
proof -
  have "(scast (ucast x :: 16 word) :: c_int) = x \<longleftrightarrow> sint (scast (ucast x :: 16 word) :: c_int) = sint x"
    by (auto intro: signed_word_eqI)
  then show ?thesis
    by (simp only: sint_narrow16 signed_take_bit_int_eq_self_iff)
qed

lemma narrow8_fits:
  fixes x :: c_int
  shows "(scast (ucast x :: 8 word) :: c_int) = x \<longleftrightarrow> - (2 ^ 7) \<le> sint x \<and> sint x < 2 ^ 7"
proof -
  have "(scast (ucast x :: 8 word) :: c_int) = x \<longleftrightarrow> sint (scast (ucast x :: 8 word) :: c_int) = sint x"
    by (auto intro: signed_word_eqI)
  then show ?thesis
    by (simp only: sint_narrow8 signed_take_bit_int_eq_self_iff)
qed

lemma uint_narrow16:
  fixes x :: c_int
  shows "uint (ucast x :: 16 word) = sint x mod 2 ^ 16"
proof -
  have "uint (ucast x :: 16 word) = take_bit 16 (uint x)" by (simp only: unsigned_ucast_eq) simp
  also have "uint x = take_bit 32 (sint x)" by (simp only: uint_sint) simp
  finally have "uint (ucast x :: 16 word) = take_bit 16 (sint x)" by (simp only: take_bit_take_bit min_def) simp
  then show ?thesis by (simp only: take_bit_eq_mod)
qed

lemma uint_narrow8:
  fixes x :: c_int
  shows "uint (ucast x :: 8 word) = sint x mod 2 ^ 8"
proof -
  have "uint (ucast x :: 8 word) = take_bit 8 (uint x)" by (simp only: unsigned_ucast_eq) simp
  also have "uint x = take_bit 32 (sint x)" by (simp only: uint_sint) simp
  finally have "uint (ucast x :: 8 word) = take_bit 8 (sint x)" by (simp only: take_bit_take_bit min_def) simp
  then show ?thesis by (simp only: take_bit_eq_mod)
qed

section \<open>The invariant is kept\<close>

lemma table_ok_set_slot:
  assumes "table_ok g"
  shows "table_ok (set_slot g hash i e)"
proof -
  let ?b = "bucket_index g hash"
  let ?bs = "buckets (Table g)"
  have b: "?b < length ?bs" by (rule bucket_index_less [OF assms])
  have all: "\<forall>k < length ?bs. length (slots (?bs ! k)) = TT_BUCKET_NB"
    using assms by (simp add: table_ok_def list_all_length)
  have "length (slots (?bs[?b := (?bs ! ?b)\<lparr> slots := (slots (?bs ! ?b))[i := e] \<rparr>] ! k)) = TT_BUCKET_NB"
    if "k < length ?bs" for k
    using all that by (cases "k = ?b") simp_all
  then show ?thesis
    using assms by (simp add: table_ok_def set_slot_def Let_def list_all_length)
qed

lemma table_ok_counters:
  "table_ok (g\<lparr> passedLookups := p \<rparr>) = table_ok g"
  "table_ok (g\<lparr> verificationFailures := f \<rparr>) = table_ok g"
  by (simp_all add: table_ok_def)

lemma table_ok_storeTTEntry:
  assumes "table_ok g"
  shows "table_ok (storeTTEntry hash m v e d bnd board g)"
proof (cases "store_discarded g hash d bnd")
  case True
  then show ?thesis using assms by (simp add: storeTTEntry_discarded)
next
  case False
  have "table_ok (set_slot g hash (store_target g hash)
          (new_entry (TTable.generation (Table g)) hash m v e d bnd))"
    by (rule table_ok_set_slot [OF assms])
  then show ?thesis
    unfolding storeTTEntry_written [OF False]
    by (simp add: table_ok_def set_slot_simps)
qed

section \<open>Store, then probe\<close>

lemma age_bits:
  fixes T b :: "8 word"
  assumes "T AND TT_MASK_BOUND = 0"
  shows "(T OR (b AND TT_MASK_BOUND)) AND TT_MASK_AGE = T"
proof -
  have m: "TT_MASK_BOUND AND TT_MASK_AGE = 0" "TT_MASK_AGE OR TT_MASK_BOUND = - 1"
    by (simp_all add: TT_MASK_BOUND_def TT_MASK_AGE_def)
  have "T = T AND (TT_MASK_AGE OR TT_MASK_BOUND)" by (simp add: m)
  also have "\<dots> = (T AND TT_MASK_AGE) OR (T AND TT_MASK_BOUND)" by (simp only: bit.conj_disj_distrib)
  finally have T: "T AND TT_MASK_AGE = T" using assms by simp
  have "(T OR (b AND TT_MASK_BOUND)) AND TT_MASK_AGE =
      (T AND TT_MASK_AGE) OR (b AND (TT_MASK_BOUND AND TT_MASK_AGE))"
    by (simp only: bit.conj_disj_distrib2 and.assoc)
  then show ?thesis by (simp add: T m)
qed

lemma bound_of_exact: "(ucast (ucast BOUND_EXACT AND TT_MASK_BOUND :: 8 word) :: c_int) = BOUND_EXACT"
  by (simp add: BOUND_EXACT_def TT_MASK_BOUND_def)

lemma not_discarded_exact: "\<not> store_discarded g hash d BOUND_EXACT"
  by (simp add: store_discarded_def)

lemma updateTT_funpow:
  "(updateTT ^^ n) g =
     g\<lparr> Table := (Table g)\<lparr> generation := TTable.generation (Table g) + of_nat n * 4 \<rparr> \<rparr>"
proof (induction n)
  case 0
  show ?case by simp
next
  case (Suc n)
  have "(updateTT ^^ Suc n) g = updateTT ((updateTT ^^ n) g)" by simp
  also have "\<dots> = g\<lparr> Table := (Table g)\<lparr> generation := TTable.generation (Table g) + of_nat (Suc n) * 4 \<rparr> \<rparr>"
    unfolding Suc by (simp add: updateTT_def TT_MASK_BOUND_def algebra_simps)
  finally show ?case .
qed

lemma storeTTEntry_simps:
  "hashMask (Table (storeTTEntry hash m v e d bnd board g)) = hashMask (Table g)"
  "TTable.generation (Table (storeTTEntry hash m v e d bnd board g)) = TTable.generation (Table g)"
  "bucket_index (storeTTEntry hash m v e d bnd board g) h = bucket_index g h"
  "verification_index (storeTTEntry hash m v e d bnd board g) h i = verification_index g h i"
  by (cases "store_discarded g hash d bnd";
      simp add: storeTTEntry_discarded storeTTEntry_written set_slot_simps bucket_index_def
        verification_index_def)+

lemma store_target_unique:
  assumes "i < TT_BUCKET_NB" "hash16 (bucket_slots g hash ! i) = ucast (drop_bit 48 hash)"
    "\<forall>k<i. hash16 (bucket_slots g hash ! k) \<noteq> ucast (drop_bit 48 hash)"
  shows "store_target g hash = i"
proof -
  note t = store_target_first_match [OF assms(1,2)]
  have "\<not> store_target g hash < i" using t assms(3) by blast
  moreover have "\<not> i < store_target g hash" using t assms(2) by blast
  ultimately show ?thesis by simp
qed

lemma storeTTEntry_exact_slots:
  assumes "table_ok g"
  shows "bucket_slots (storeTTEntry hash m v e d BOUND_EXACT board g) hash =
      (bucket_slots g hash)[store_target g hash :=
         new_entry (TTable.generation (Table g)) hash m v e d BOUND_EXACT]"
    and "verificationHashes (storeTTEntry hash m v e d BOUND_EXACT board g) !
           verification_index g hash (store_target g hash) = boardToBoardHashSrc board"
proof -
  let ?r = "store_target g hash"
  let ?ne = "new_entry (TTable.generation (Table g)) hash m v e d BOUND_EXACT"
  have w: "storeTTEntry hash m v e d BOUND_EXACT board g =
      (set_slot g hash ?r ?ne)
        \<lparr> verificationHashes := (verificationHashes g)[verification_index g hash ?r :=
                      boardToBoardHashSrc board] \<rparr>"
    by (rule storeTTEntry_written [OF not_discarded_exact])
  show "bucket_slots (storeTTEntry hash m v e d BOUND_EXACT board g) hash = (bucket_slots g hash)[?r := ?ne]"
    using bucket_slots_set_slot [OF assms, of hash ?r ?ne]
    by (simp add: w bucket_slots_def bucket_index_def set_slot_simps)
  show "verificationHashes (storeTTEntry hash m v e d BOUND_EXACT board g) !
           verification_index g hash ?r = boardToBoardHashSrc board"
    using verification_index_less [OF assms store_target_less [of g hash], of hash]
    by (simp add: w set_slot_simps)
qed

lemma table_ok_updateTT:
  assumes "table_ok g"
  shows "table_ok (updateTT g)"
proof -
  let ?T = "TTable.generation (Table g)"
  have m: "\<And>x :: 8 word. x AND TT_MASK_BOUND = take_bit 2 x"
    by (simp add: TT_MASK_BOUND_def take_bit_eq_mask mask_numeral)
  have T: "take_bit 2 ?T = 0" using assms by (simp add: table_ok_def m)
  have u: "\<And>x :: 8 word. unat (take_bit 2 x) = unat x mod 4"
    by (simp only: unsigned_take_bit_eq) (simp add: take_bit_eq_mod)
  have "unat ?T mod 4 = 0" using T u [of ?T] by simp
  moreover have "unat (?T + 4) = (unat ?T + 4) mod 256"
    by (simp add: unat_word_ariths)
  moreover have "(unat ?T + 4) mod 256 mod 4 = (unat ?T + 4) mod 4"
    by (intro mod_mod_cancel) simp
  ultimately have "unat (take_bit 2 (?T + 4)) = 0" by (simp add: u)
  then have "take_bit 2 (?T + 4) = 0" by (simp only: unat_eq_zero)
  then have "(?T + (TT_MASK_BOUND + 1)) AND TT_MASK_BOUND = 0"
    by (simp add: m) (simp add: TT_MASK_BOUND_def)
  then show ?thesis
    using assms by (simp add: table_ok_def updateTT_def)
qed

lemma table_ok_updateTT_funpow:
  assumes "table_ok g"
  shows "table_ok ((updateTT ^^ n) g)"
  by (induction n) (simp_all add: assms table_ok_updateTT)

lemma updateTT_funpow_simps:
  "buckets (Table ((updateTT ^^ n) g)) = buckets (Table g)"
  "hashMask (Table ((updateTT ^^ n) g)) = hashMask (Table g)"
  "TTable.generation (Table ((updateTT ^^ n) g)) = TTable.generation (Table g) + of_nat n * 4"
  "verificationHashes ((updateTT ^^ n) g) = verificationHashes g"
  "passedLookups ((updateTT ^^ n) g) = passedLookups g"
  "bucket_slots ((updateTT ^^ n) g) h = bucket_slots g h"
  "verification_index ((updateTT ^^ n) g) h i = verification_index g h i"
  by (simp_all add: updateTT_funpow bucket_slots_def bucket_index_def verification_index_def)

lemma getTTEntry_hit:
  assumes ok: "table_ok g" and i: "i < TT_BUCKET_NB"
    and m1: "hash16 (bucket_slots g hash ! i) = ucast (drop_bit 48 hash)"
    and m2: "\<forall>k<i. hash16 (bucket_slots g hash ! k) \<noteq> ucast (drop_bit 48 hash)"
    and vrec: "verificationHashes g ! verification_index g hash i = boardToBoardHashSrc board"
  shows "getTTEntry hash board g =
     (Some \<lparr> out_move = move (bucket_slots g hash ! i),
              out_value = scast (tt_value (bucket_slots g hash ! i)),
              out_eval = scast (TTEntry.eval (bucket_slots g hash ! i)),
              out_depth = scast (depth (bucket_slots g hash ! i)),
              out_bound = ucast (TTEntry.generation (bucket_slots g hash ! i) AND TT_MASK_BOUND),
              out_slot = i \<rparr>,
      set_slot (g\<lparr> passedLookups := passedLookups g + 1 \<rparr>) hash i
        ((bucket_slots g hash ! i)
           \<lparr> TTEntry.generation := TTable.generation (Table g) OR
               (TTEntry.generation (bucket_slots g hash ! i) AND TT_MASK_BOUND) \<rparr>))"
    and "bucket_slots (snd (getTTEntry hash board g)) hash =
      (bucket_slots g hash)[i := (bucket_slots g hash ! i)
           \<lparr> TTEntry.generation := TTable.generation (Table g) OR
               (TTEntry.generation (bucket_slots g hash ! i) AND TT_MASK_BOUND) \<rparr>]"
proof -
  let ?e = "bucket_slots g hash ! i"
  let ?g1 = "g\<lparr> passedLookups := passedLookups g + 1 \<rparr>"
  have probe: "getTTEntry hash board g = getTTEntry_slot hash board g i"
    by (rule getTTEntry_first_match [OF i m1 m2])
  have ver: "verifyTTEntry hash i board g = (0, ?g1)"
    unfolding verifyTTEntry_def Let_def vrec by simp
  have bs: "bucket_slots ?g1 hash = bucket_slots g hash"
    by (simp add: bucket_slots_def bucket_index_def)
  have T0: "TTable.generation (Table g) AND TT_MASK_BOUND = 0" using ok by (simp add: table_ok_def)
  show hit: "getTTEntry hash board g =
     (Some \<lparr> out_move = move ?e, out_value = scast (tt_value ?e), out_eval = scast (TTEntry.eval ?e),
              out_depth = scast (depth ?e),
              out_bound = ucast (TTEntry.generation ?e AND TT_MASK_BOUND), out_slot = i \<rparr>,
      set_slot ?g1 hash i
        (?e\<lparr> TTEntry.generation := TTable.generation (Table g) OR (TTEntry.generation ?e AND TT_MASK_BOUND) \<rparr>))"
    unfolding probe getTTEntry_slot_def ver
    using gen_bound_bits [OF T0, of "TTEntry.generation ?e"]
    by (simp add: Let_def bs)
  have ok1: "table_ok ?g1" using ok by (simp add: table_ok_def)
  show "bucket_slots (snd (getTTEntry hash board g)) hash =
      (bucket_slots g hash)[i := ?e
           \<lparr> TTEntry.generation := TTable.generation (Table g) OR (TTEntry.generation ?e AND TT_MASK_BOUND) \<rparr>]"
    unfolding hit by (simp add: bucket_slots_set_slot [OF ok1] bs)
qed

lemma exact_gen:
  fixes T :: "8 word"
  shows "(ucast BOUND_EXACT OR T) AND TT_MASK_BOUND = 3"
  by (simp add: BOUND_EXACT_def TT_MASK_BOUND_def bit.conj_disj_distrib2)

text \<open>
  Claim C2 (probe/store round trip). After \<open>storeTTEntry(H, M, 55, 40, 10, BOUND_EXACT, B)\<close>,
  and after any number \<open>n\<close> of calls of \<open>updateTT\<close> (none, for the probe that follows the
  store at once), a probe \<open>getTTEntry(H, ..., B)\<close> with the same hash and board returns 1 with
  move \<open>M\<close>, value 55, eval 40, depth 10 and bound \<open>BOUND_EXACT\<close>, from the slot the store
  wrote. Before the probe that slot carries the generation of the store; the probe rewrites
  its generation byte to the current \<open>Table.generation\<close> with the bound bits as they were,
  and changes nothing else in the bucket.
\<close>

theorem probe_store_roundtrip:
  assumes "table_ok g"
  shows "let g1 = storeTTEntry H M 55 40 10 BOUND_EXACT B g;
             g2 = (updateTT ^^ n) g1;
             g3 = snd (getTTEntry H B g2);
             i = store_target g H;
             before = TTEntry.generation (bucket_slots g2 H ! i);
             after = TTEntry.generation (bucket_slots g3 H ! i)
         in fst (getTTEntry H B g2) =
              Some \<lparr> out_move = M, out_value = 55, out_eval = 40, out_depth = 10,
                     out_bound = BOUND_EXACT, out_slot = i \<rparr> \<and>
            i < TT_BUCKET_NB \<and>
            TTable.generation (Table g2) = TTable.generation (Table g) + 4 * of_nat n \<and>
            before = TTable.generation (Table g) OR 3 \<and>
            after = TTable.generation (Table g2) OR 3 \<and>
            after AND TT_MASK_AGE = TTable.generation (Table g2) \<and>
            after AND TT_MASK_BOUND = before AND TT_MASK_BOUND \<and>
            bucket_slots g3 H = (bucket_slots g2 H)[i := (bucket_slots g2 H ! i)\<lparr> TTEntry.generation := after \<rparr>]"
proof -
  let ?g1 = "storeTTEntry H M 55 40 10 BOUND_EXACT B g"
  let ?g2 = "(updateTT ^^ n) ?g1"
  let ?i = "store_target g H"
  let ?T = "TTable.generation (Table g)"
  let ?T2 = "TTable.generation (Table ?g2)"
  let ?ne = "new_entry ?T H M 55 40 10 BOUND_EXACT"
  have i: "?i < TT_BUCKET_NB" by (rule store_target_less)
  have len: "length (bucket_slots g H) = TT_BUCKET_NB" by (rule bucket_slots_length [OF assms])
  have ok1: "table_ok ?g1" by (rule table_ok_storeTTEntry [OF assms])
  have ok2: "table_ok ?g2" by (rule table_ok_updateTT_funpow [OF ok1])
  have s2: "bucket_slots ?g2 H = (bucket_slots g H)[?i := ?ne]"
    using storeTTEntry_exact_slots(1) [OF assms, of H M 55 40 10 B]
    by (simp add: updateTT_funpow_simps)
  have at: "bucket_slots ?g2 H ! ?i = ?ne" using i len by (simp add: s2)
  have m1: "hash16 (bucket_slots ?g2 H ! ?i) = ucast (drop_bit 48 H)"
    by (simp add: at new_entry_def)
  have m2: "\<forall>k < ?i. hash16 (bucket_slots ?g2 H ! k) \<noteq> ucast (drop_bit 48 H)"
    using store_target_before [of _ g H] by (simp add: s2)
  have vrec: "verificationHashes ?g2 ! verification_index ?g2 H ?i = boardToBoardHashSrc B"
    using storeTTEntry_exact_slots(2) [OF assms, of H M 55 40 10 B]
    by (simp add: updateTT_funpow_simps storeTTEntry_simps)
  note hit = getTTEntry_hit [OF ok2 i m1 m2 vrec]
  have T2: "?T2 = ?T + 4 * of_nat n"
    by (simp add: updateTT_funpow_simps storeTTEntry_simps)
  have T20: "?T2 AND TT_MASK_BOUND = 0" using ok2 by (simp add: table_ok_def)
  have gen_ne: "TTEntry.generation ?ne = ?T OR 3"
    by (simp add: new_entry_def BOUND_EXACT_def or.commute)
  have b3: "TTEntry.generation ?ne AND TT_MASK_BOUND = 3"
    unfolding new_entry_def by (simp add: exact_gen)
  have after: "TTEntry.generation (bucket_slots (snd (getTTEntry H B ?g2)) H ! ?i) = ?T2 OR 3"
    unfolding hit(2) using i len by (simp add: s2 b3)
  have fields: "fst (getTTEntry H B ?g2) =
      Some \<lparr> out_move = M, out_value = 55, out_eval = 40, out_depth = 10,
             out_bound = BOUND_EXACT, out_slot = ?i \<rparr>"
    unfolding hit(1) at by (simp add: b3) (simp add: new_entry_def BOUND_EXACT_def)
  have age: "(?T2 OR 3) AND TT_MASK_AGE = ?T2"
    using age_bits [OF T20, of 3] by (simp add: TT_MASK_BOUND_def)
  have bnd: "(?T2 OR 3) AND TT_MASK_BOUND = (?T OR 3) AND TT_MASK_BOUND"
    using T20 assms by (simp add: table_ok_def bit.conj_disj_distrib2 TT_MASK_BOUND_def)
  have slots3: "bucket_slots (snd (getTTEntry H B ?g2)) H =
      (bucket_slots ?g2 H)[?i := (bucket_slots ?g2 H ! ?i)\<lparr> TTEntry.generation := ?T2 OR 3 \<rparr>]"
    unfolding hit(2) by (simp add: at b3)
  show ?thesis
    unfolding Let_def after
    using fields i T2 age bnd slots3 by (simp add: at gen_ne)
qed

lemma table_ok_fresh_table: "table_ok fresh_table"
  by (simp add: table_ok_def fresh_table_def list_all_length zero_bucket_def TT_MASK_BOUND_def)

lemma fresh_bucket: "bucket_slots fresh_table example_hash = [zero_entry, zero_entry, zero_entry]"
  by (simp add: bucket_slots_def bucket_index_def fresh_table_def example_hash_def zero_bucket_def
      TT_BUCKET_NB_def numeral_3_eq_3)

lemma example_hash16: "(ucast (drop_bit 48 example_hash) :: 16 word) = 0xBEEF"
  by (simp add: example_hash_def drop_bit_eq_div)

lemma fresh_target: "store_target fresh_table example_hash = 2"
  by (simp add: store_target_def storeTTEntry_scan_unfold fresh_bucket zero_entry_def
      example_hash16 Let_def TT_BUCKET_NB_def)

text \<open>
  On the fresh 2 MB table the entry goes to the last slot of bucket 42 with generation byte
  3; after one \<open>updateTT\<close> the probe finds it and leaves the byte at 7.
\<close>

theorem probe_store_roundtrip_witness:
  "table_ok fresh_table \<and>
   fst (getTTEntry example_hash startpos
          (updateTT (storeTTEntry example_hash 796 55 40 10 BOUND_EXACT startpos fresh_table))) =
     Some \<lparr> out_move = 796, out_value = 55, out_eval = 40, out_depth = 10,
            out_bound = BOUND_EXACT, out_slot = 2 \<rparr> \<and>
   TTable.generation (Table
     (updateTT (storeTTEntry example_hash 796 55 40 10 BOUND_EXACT startpos fresh_table))) = 4 \<and>
   TTEntry.generation (bucket_slots
     (updateTT (storeTTEntry example_hash 796 55 40 10 BOUND_EXACT startpos fresh_table))
     example_hash ! 2) = 3 \<and>
   TTEntry.generation (bucket_slots
     (snd (getTTEntry example_hash startpos
        (updateTT (storeTTEntry example_hash 796 55 40 10 BOUND_EXACT startpos fresh_table))))
     example_hash ! 2) = 7"
proof -
  have T: "TTable.generation (Table fresh_table) = 0" by (simp add: fresh_table_def)
  show ?thesis
    using probe_store_roundtrip [OF table_ok_fresh_table, of example_hash 796 startpos "Suc 0"]
      table_ok_fresh_table
    by (simp add: Let_def fresh_target T)
qed

text \<open>
  Claim C10 (field truncation on store). A store that writes a slot keeps the depth modulo
  \<open>2 ^ 8\<close> in a signed 8-bit field, the value and the eval modulo \<open>2 ^ 16\<close> in signed 16-bit
  fields, and the 16-bit move as it is. The probe that follows returns the fields
  sign-extended, so it returns the store's value, eval and depth exactly when these fitted
  their fields: \<open>-2 ^ 15 \<le> value < 2 ^ 15\<close>, the same for eval, and \<open>-2 ^ 7 \<le> depth < 2 ^ 7\<close>.
\<close>

theorem store_truncates_fields:
  assumes "table_ok g" "\<not> store_discarded g hash d bnd"
  shows "let g1 = storeTTEntry hash m v e d bnd board g;
             s = bucket_slots g1 hash ! store_target g hash
         in depth s = ucast d \<and> uint (depth s) = sint d mod 2 ^ 8 \<and>
            tt_value s = ucast v \<and> uint (tt_value s) = sint v mod 2 ^ 16 \<and>
            TTEntry.eval s = ucast e \<and> uint (TTEntry.eval s) = sint e mod 2 ^ 16 \<and>
            move s = m \<and>
            fst (getTTEntry hash board g1) =
              Some \<lparr> out_move = m,
                     out_value = scast (ucast v :: 16 word),
                     out_eval = scast (ucast e :: 16 word),
                     out_depth = scast (ucast d :: 8 word),
                     out_bound = ucast ((ucast bnd :: 8 word) AND TT_MASK_BOUND),
                     out_slot = store_target g hash \<rparr> \<and>
            ((scast (ucast v :: 16 word) :: c_int) = v \<longleftrightarrow> - (2 ^ 15) \<le> sint v \<and> sint v < 2 ^ 15) \<and>
            ((scast (ucast e :: 16 word) :: c_int) = e \<longleftrightarrow> - (2 ^ 15) \<le> sint e \<and> sint e < 2 ^ 15) \<and>
            ((scast (ucast d :: 8 word) :: c_int) = d \<longleftrightarrow> - (2 ^ 7) \<le> sint d \<and> sint d < 2 ^ 7)"
proof -
  let ?ne = "new_entry (TTable.generation (Table g)) hash m v e d bnd"
  let ?i = "store_target g hash"
  have i: "?i < TT_BUCKET_NB" by (rule store_target_less)
  have s: "bucket_slots (storeTTEntry hash m v e d bnd board g) hash ! ?i = ?ne"
    using i bucket_slots_length [OF assms(1), of hash]
      bucket_slots_set_slot [OF assms(1), of hash ?i ?ne]
    by (simp add: storeTTEntry_written [OF assms(2)] bucket_slots_def bucket_index_def set_slot_simps)
  show ?thesis
    unfolding Let_def s store_then_probe [OF assms]
    using narrow8_fits [of d] narrow16_fits [of v] narrow16_fits [of e]
    by (simp add: new_entry_def uint_narrow8 uint_narrow16)
qed

text \<open>A value of 70000, an eval of -40000 and a depth of 300 come back as 4464, 25536 and 44.\<close>

theorem store_truncates_fields_witness:
  "table_ok fresh_table \<and> \<not> store_discarded fresh_table example_hash 300 BOUND_LOWER \<and>
   fst (getTTEntry example_hash startpos
          (storeTTEntry example_hash 796 70000 (- 40000) 300 BOUND_LOWER startpos fresh_table)) =
     Some \<lparr> out_move = 796, out_value = 4464, out_eval = 25536, out_depth = 44,
            out_bound = BOUND_LOWER, out_slot = 2 \<rparr>"
proof -
  have nd: "\<not> store_discarded fresh_table example_hash 300 BOUND_LOWER"
    by (simp add: store_discarded_def fresh_target fresh_bucket zero_entry_def example_hash16)
  show ?thesis
    using store_truncates_fields [OF table_ok_fresh_table nd, of 796 70000 "- 40000" startpos]
      table_ok_fresh_table nd
    by (simp add: Let_def fresh_target BOUND_LOWER_def TT_MASK_BOUND_def)
qed

section \<open>What a store overwrites\<close>

text \<open>
  Claim C3 (store-discard condition). \<open>storeTTEntry\<close> selects a target slot (the slot whose
  signature matches, if the bucket has one) and returns without writing, leaving the table
  and the verification array as they were, when that slot holds the same 16-bit signature,
  the new bound is not \<open>BOUND_EXACT\<close> and the new depth is more than 3 less than the slot's
  depth. In every other case it overwrites the target slot with the new entry and the
  slot's verification record with the packed board; in particular a \<open>BOUND_EXACT\<close> store is
  never discarded.
\<close>

theorem store_discard_condition:
  assumes "table_ok g"
  shows "let r = store_target g hash;
             old = bucket_slots g hash ! r;
             discard = (hash16 old = ucast (drop_bit 48 hash) \<and> bound \<noteq> BOUND_EXACT \<and>
                        sint depth' < sint (depth old) - 3);
             new = new_entry (TTable.generation (Table g)) hash move' value' eval' depth' bound;
             g1 = storeTTEntry hash move' value' eval' depth' bound board g
         in r < TT_BUCKET_NB \<and>
            (list_ex (\<lambda>s. hash16 s = ucast (drop_bit 48 hash)) (bucket_slots g hash) \<longrightarrow>
               hash16 old = ucast (drop_bit 48 hash)) \<and>
            (discard \<longrightarrow> g1 = g) \<and>
            (\<not> discard \<longrightarrow>
               g1 = (set_slot g hash r new)
                      \<lparr> verificationHashes :=
                          (verificationHashes g)[verification_index g hash r := boardToBoardHashSrc board] \<rparr> \<and>
               bucket_slots g1 hash = (bucket_slots g hash)[r := new] \<and>
               bucket_slots g1 hash ! r = new \<and>
               verificationHashes g1 ! verification_index g hash r = boardToBoardHashSrc board) \<and>
            (bound = BOUND_EXACT \<longrightarrow> \<not> discard)"
proof -
  let ?r = "store_target g hash"
  let ?old = "bucket_slots g hash ! ?r"
  let ?new = "new_entry (TTable.generation (Table g)) hash move' value' eval' depth' bound"
  let ?g1 = "storeTTEntry hash move' value' eval' depth' bound board g"
  let ?discard = "hash16 ?old = ucast (drop_bit 48 hash) \<and> bound \<noteq> BOUND_EXACT \<and>
                        sint depth' < sint (depth ?old) - 3"
  have r: "?r < TT_BUCKET_NB" by (rule store_target_less)
  have len: "length (bucket_slots g hash) = TT_BUCKET_NB" by (rule bucket_slots_length [OF assms])
  have d: "store_discarded g hash depth' bound \<longleftrightarrow> ?discard"
    by (auto simp: store_discarded_def)
  have match: "hash16 ?old = ucast (drop_bit 48 hash)"
    if "list_ex (\<lambda>s. hash16 s = ucast (drop_bit 48 hash)) (bucket_slots g hash)"
  proof -
    from that obtain j where "j < length (bucket_slots g hash)"
        "hash16 (bucket_slots g hash ! j) = ucast (drop_bit 48 hash)"
      by (auto simp: list_ex_length)
    then show ?thesis using store_target_first_match [of j g hash] len by simp
  qed
  have unchanged: "?g1 = g" if "?discard"
    using that d by (simp add: storeTTEntry_discarded)
  have written: "?g1 = (set_slot g hash ?r ?new)
                      \<lparr> verificationHashes :=
                          (verificationHashes g)[verification_index g hash ?r := boardToBoardHashSrc board] \<rparr>"
    if "\<not> ?discard"
    using that d by (simp add: storeTTEntry_written)
  have slots1: "bucket_slots ?g1 hash = (bucket_slots g hash)[?r := ?new]" if "\<not> ?discard"
    using bucket_slots_set_slot [OF assms, of hash ?r ?new]
    by (simp add: written [OF that] bucket_slots_def bucket_index_def set_slot_simps)
  have at_r: "bucket_slots ?g1 hash ! ?r = ?new" if "\<not> ?discard"
    using r len by (simp add: slots1 [OF that])
  have ver: "verificationHashes ?g1 ! verification_index g hash ?r = boardToBoardHashSrc board"
    if "\<not> ?discard"
    using verification_index_less [OF assms r, of hash] by (simp add: written [OF that])
  show ?thesis
    unfolding Let_def using r match unchanged written slots1 at_r ver by blast
qed
lemma table_ok_stored_table: "table_ok stored_table"
  unfolding stored_table_def by (rule table_ok_storeTTEntry [OF table_ok_fresh_table])

lemma stored_generation: "TTable.generation (Table stored_table) = 0"
  by (simp add: stored_table_def storeTTEntry_written [OF not_discarded_exact] set_slot_simps
      fresh_table_def)

lemma stored_bucket:
  "bucket_slots stored_table example_hash =
     [zero_entry, zero_entry, new_entry 0 example_hash 796 55 40 10 BOUND_EXACT]"
proof -
  have "bucket_slots stored_table example_hash =
      (bucket_slots fresh_table example_hash)[2 :=
         new_entry (TTable.generation (Table fresh_table)) example_hash 796 55 40 10 BOUND_EXACT]"
    using bucket_slots_set_slot [OF table_ok_fresh_table, of example_hash 2]
    by (simp add: stored_table_def storeTTEntry_written [OF not_discarded_exact] fresh_target
        bucket_slots_def bucket_index_def set_slot_simps)
  moreover have "TTable.generation (Table fresh_table) = 0" by (simp add: fresh_table_def)
  ultimately show ?thesis by (simp add: fresh_bucket)
qed

lemma new_entry_fields:
  "hash16 (new_entry T h m v e d b) = ucast (drop_bit 48 h)"
  "depth (new_entry T h m v e d b) = ucast d"
  by (simp_all add: new_entry_def)

lemma stored_target: "store_target stored_table example_hash = 2"
  by (simp add: store_target_def storeTTEntry_scan_unfold stored_bucket zero_entry_def
      new_entry_def example_hash16 Let_def TT_BUCKET_NB_def)

text \<open>
  Over an exact entry of depth 10: a lower-bound store of depth 6 is discarded, one of depth
  8 is written, and so is an exact store of depth 1.
\<close>

theorem store_discard_condition_witness:
  "table_ok stored_table \<and>
   storeTTEntry example_hash 1 (- 7) 3 6 BOUND_LOWER startpos stored_table = stored_table \<and>
   bucket_slots (storeTTEntry example_hash 1 (- 7) 3 8 BOUND_LOWER startpos stored_table) example_hash ! 2
     = new_entry 0 example_hash 1 (- 7) 3 8 BOUND_LOWER \<and>
   bucket_slots (storeTTEntry example_hash 1 (- 7) 3 1 BOUND_EXACT startpos stored_table) example_hash ! 2
     = new_entry 0 example_hash 1 (- 7) 3 1 BOUND_EXACT"
proof -
  note ev = Let_def stored_target stored_bucket stored_generation new_entry_fields
      BOUND_LOWER_def BOUND_EXACT_def
  have a: "storeTTEntry example_hash 1 (- 7) 3 6 BOUND_LOWER startpos stored_table = stored_table"
    using store_discard_condition [OF table_ok_stored_table,
        of example_hash BOUND_LOWER 6 1 "- 7" 3 startpos]
    by (auto simp: ev)
  have b: "bucket_slots (storeTTEntry example_hash 1 (- 7) 3 8 BOUND_LOWER startpos stored_table)
        example_hash ! 2 = new_entry 0 example_hash 1 (- 7) 3 8 BOUND_LOWER"
    using store_discard_condition [OF table_ok_stored_table,
        of example_hash BOUND_LOWER 8 1 "- 7" 3 startpos]
    by (auto simp: ev)
  have c: "bucket_slots (storeTTEntry example_hash 1 (- 7) 3 1 BOUND_EXACT startpos stored_table)
        example_hash ! 2 = new_entry 0 example_hash 1 (- 7) 3 1 BOUND_EXACT"
    using store_discard_condition [OF table_ok_stored_table,
        of example_hash BOUND_EXACT 1 1 "- 7" 3 startpos]
    by (auto simp: ev)
  show ?thesis using table_ok_stored_table a b c by simp
qed
lemma score_current_generation:
  fixes T :: "8 word"
  assumes "TTEntry.generation s AND TT_MASK_AGE = T"
  shows "replacement_score T s = sint (depth s)"
proof -
  let ?G = "TTEntry.generation s"
  have "TT_MASK_AGE OR TT_MASK_BOUND = - 1"
    by (simp add: TT_MASK_AGE_def TT_MASK_BOUND_def)
  then have "?G = ?G AND (TT_MASK_AGE OR TT_MASK_BOUND)"
    by (simp only: and.right_neutral)
  also have "\<dots> = (?G AND TT_MASK_AGE) OR (?G AND TT_MASK_BOUND)"
    by (simp only: bit.conj_disj_distrib)
  finally have "uint ?G = uint (?G AND TT_MASK_AGE) OR uint (?G AND TT_MASK_BOUND)"
    by (metis uint_or)
  moreover have "uint (?G AND TT_MASK_AGE) AND uint (?G AND TT_MASK_BOUND) = 0"
  proof -
    have "(?G AND TT_MASK_AGE) AND (?G AND TT_MASK_BOUND) = ?G AND (TT_MASK_AGE AND TT_MASK_BOUND)"
      by (simp add: ac_simps)
    then have "(?G AND TT_MASK_AGE) AND (?G AND TT_MASK_BOUND) = 0"
      by (simp add: TT_MASK_AGE_def TT_MASK_BOUND_def)
    then show ?thesis by (metis uint_and uint_0_eq)
  qed
  ultimately have sum: "uint ?G = uint T + uint (?G AND TT_MASK_BOUND)"
    using assms by (simp add: disjunctive_add_eq_or)
  have "?G AND TT_MASK_BOUND \<le> TT_MASK_BOUND" by (rule word_and_le1)
  then have "uint (?G AND TT_MASK_BOUND) \<le> 3"
    by (simp add: word_le_def TT_MASK_BOUND_def)
  moreover have "0 \<le> uint (?G AND TT_MASK_BOUND)" by simp
  ultimately consider "uint (?G AND TT_MASK_BOUND) = 0" | "uint (?G AND TT_MASK_BOUND) = 1"
    | "uint (?G AND TT_MASK_BOUND) = 2" | "uint (?G AND TT_MASK_BOUND) = 3"
    by linarith
  then have "(259 + uint T - uint ?G) AND uint TT_MASK_AGE = 0"
    by cases (simp_all add: sum TT_MASK_AGE_def)
  then show ?thesis by (simp add: replacement_score_def)
qed

text \<open>
  Claim C4 (replacement preference). When no slot of the target bucket has the new entry's
  signature, \<open>storeTTEntry\<close> overwrites a slot whose replacement score
  \<open>depth - ((259 + Table.generation - generation) & TT_MASK_AGE)\<close> is least among the three
  slots. In particular, when the three entries carry the current generation and have depths
  2, 5 and 9 (in any order), the entry of depth 2 is the one evicted.
\<close>

theorem replacement_preference:
  assumes "table_ok g"
    and "list_all (\<lambda>s. hash16 s \<noteq> ucast (drop_bit 48 hash)) (bucket_slots g hash)"
  shows "let r = store_target g hash;
             T = TTable.generation (Table g);
             ss = bucket_slots g hash;
             g1 = storeTTEntry hash move' value' eval' depth' bound board g
         in r < TT_BUCKET_NB \<and>
            list_all (\<lambda>s. replacement_score T (ss ! r) \<le> replacement_score T s) ss \<and>
            bucket_slots g1 hash = ss[r := new_entry T hash move' value' eval' depth' bound] \<and>
            (list_all (\<lambda>s. TTEntry.generation s AND TT_MASK_AGE = T) ss \<and>
             set (map (\<lambda>s. sint (depth s)) ss) = {2, 5, 9} \<longrightarrow>
               sint (depth (ss ! r)) = 2)"
proof -
  let ?r = "store_target g hash"
  let ?T = "TTable.generation (Table g)"
  let ?ss = "bucket_slots g hash"
  let ?new = "new_entry ?T hash move' value' eval' depth' bound"
  have r: "?r < TT_BUCKET_NB" by (rule store_target_less)
  have len: "length ?ss = TT_BUCKET_NB" by (rule bucket_slots_length [OF assms(1)])
  have nomatch: "\<forall>j<TT_BUCKET_NB. hash16 (?ss ! j) \<noteq> ucast (drop_bit 48 hash)"
    using assms(2) len by (simp add: list_all_length)
  have weakest: "\<forall>j<TT_BUCKET_NB. replacement_score ?T (?ss ! ?r) \<le> replacement_score ?T (?ss ! j)"
    using nomatch
    unfolding store_target_def storeTTEntry_scan_unfold all_slots
    by (auto simp: TT_BUCKET_NB_def Let_def)
  then have min: "list_all (\<lambda>s. replacement_score ?T (?ss ! ?r) \<le> replacement_score ?T s) ?ss"
    using len by (simp add: list_all_length)
  have nd: "\<not> store_discarded g hash depth' bound"
    using nomatch r by (auto simp: store_discarded_def)
  have written: "bucket_slots (storeTTEntry hash move' value' eval' depth' bound board g) hash
      = ?ss[?r := ?new]"
    using bucket_slots_set_slot [OF assms(1), of hash ?r ?new]
    by (simp add: storeTTEntry_written [OF nd] bucket_slots_def bucket_index_def set_slot_simps)
  have two: "sint (depth (?ss ! ?r)) = 2"
    if cur: "list_all (\<lambda>s. TTEntry.generation s AND TT_MASK_AGE = ?T) ?ss"
      and depths: "set (map (\<lambda>s. sint (depth s)) ?ss) = {2, 5, 9}"
  proof -
    have score: "replacement_score ?T s = sint (depth s)" if "s \<in> set ?ss" for s
      using cur that by (intro score_current_generation) (simp add: list_all_iff)
    have in_ss: "?ss ! ?r \<in> set ?ss" using r len by simp
    have le: "sint (depth (?ss ! ?r)) \<le> sint (depth s)" if "s \<in> set ?ss" for s
    proof -
      have "replacement_score ?T (?ss ! ?r) \<le> replacement_score ?T s"
        using min that by (simp add: list_all_iff)
      then show ?thesis by (simp only: score [OF that] score [OF in_ss])
    qed
    have "(2 :: int) \<in> set (map (\<lambda>s. sint (depth s)) ?ss)" using depths by simp
    then obtain s where "s \<in> set ?ss" "sint (depth s) = 2" by auto
    then have "sint (depth (?ss ! ?r)) \<le> 2" using le by fastforce
    moreover have "sint (depth (?ss ! ?r)) \<in> {2, 5, 9}"
      using in_ss depths by (metis (no_types, lifting) image_eqI list.set_map)
    ultimately show ?thesis by auto
  qed
  show ?thesis
    unfolding Let_def using r min written two by blast
qed
lemma table_ok_mixed_table: "table_ok mixed_table"
  by (simp add: table_ok_def mixed_table_def list_all_length TT_BUCKET_NB_def TT_MASK_BOUND_def)

lemma mixed_bucket:
  "bucket_slots mixed_table example_hash =
     [\<lparr> depth = 5, generation = 0x0B, eval = 12, tt_value = 34, move = 796, hash16 = 0x1111 \<rparr>,
      \<lparr> depth = 2, generation = 0x09, eval = 7, tt_value = - 3, move = 530, hash16 = 0x2222 \<rparr>,
      \<lparr> depth = 9, generation = 0x0A, eval = 0, tt_value = - 20, move = 1, hash16 = 0x3333 \<rparr>]"
  by (simp add: bucket_slots_def bucket_index_def mixed_table_def example_hash_def)

lemma mixed_generation: "TTable.generation (Table mixed_table) = 8"
  by (simp add: mixed_table_def)

lemma mixed_no_match:
  "list_all (\<lambda>s. hash16 s \<noteq> ucast (drop_bit 48 example_hash)) (bucket_slots mixed_table example_hash)"
  by (simp add: mixed_bucket example_hash16)

text \<open>With depths 5, 2, 9 in this order the middle slot is replaced.\<close>

theorem replacement_preference_witness:
  "table_ok mixed_table \<and>
   list_all (\<lambda>s. hash16 s \<noteq> ucast (drop_bit 48 example_hash)) (bucket_slots mixed_table example_hash) \<and>
   list_all (\<lambda>s. TTEntry.generation s AND TT_MASK_AGE = TTable.generation (Table mixed_table))
     (bucket_slots mixed_table example_hash) \<and>
   map (\<lambda>s. sint (depth s)) (bucket_slots mixed_table example_hash) = [5, 2, 9] \<and>
   store_target mixed_table example_hash = 1 \<and>
   map (\<lambda>s. sint (depth s))
     (bucket_slots (storeTTEntry example_hash 796 55 40 7 BOUND_UPPER startpos mixed_table) example_hash)
     = [5, 7, 9]"
proof -
  have t: "store_target mixed_table example_hash = 1"
    by (simp add: store_target_def storeTTEntry_scan_unfold mixed_bucket example_hash16 Let_def
        TT_BUCKET_NB_def replacement_score_def TT_MASK_AGE_def mixed_generation)
  have "bucket_slots (storeTTEntry example_hash 796 55 40 7 BOUND_UPPER startpos mixed_table) example_hash
      = (bucket_slots mixed_table example_hash)[1 := new_entry 8 example_hash 796 55 40 7 BOUND_UPPER]"
    using replacement_preference [OF table_ok_mixed_table mixed_no_match, of 796 55 40 7 BOUND_UPPER startpos]
    by (simp add: Let_def t mixed_generation)
  then show ?thesis
    using table_ok_mixed_table mixed_no_match t
    by (simp add: mixed_bucket new_entry_fields mixed_generation TT_MASK_AGE_def)
qed

section \<open>Probing a cleared table\<close>

text \<open>
  \<open>clearTT\<close> zeroes the buckets and leaves \<open>verificationHashes\<close> as it is. Every slot then
  has signature 0, so a probe whose hash has its top 16 bits clear stops at slot 0 and is
  decided by the verification record kept for that slot.
\<close>

lemma unat_hashMask_Suc:
  assumes "table_ok g"
  shows "unat (hashMask (Table g) + 1) = unat (hashMask (Table g)) + 1"
proof -
  have "unat (hashMask (Table g)) + 1 < 2 ^ 64"
    using assms by (simp add: table_ok_def)
  then show ?thesis by (simp add: unat_word_ariths)
qed

lemma clearTT_buckets:
  assumes "table_ok g"
  shows "buckets (Table (clearTT g)) = replicate (length (buckets (Table g))) zero_bucket"
  using assms unat_hashMask_Suc [OF assms]
  by (simp add: clearTT_def Let_def table_ok_def)

lemma clearTT_simps:
  "hashMask (Table (clearTT g)) = hashMask (Table g)"
  "TTable.generation (Table (clearTT g)) = TTable.generation (Table g)"
  "verificationHashes (clearTT g) = verificationHashes g"
  "passedLookups (clearTT g) = passedLookups g"
  "verificationFailures (clearTT g) = verificationFailures g"
  "bucket_index (clearTT g) hash = bucket_index g hash"
  "verification_index (clearTT g) hash i = verification_index g hash i"
  by (simp_all add: clearTT_def Let_def bucket_index_def verification_index_def)

lemma table_ok_clearTT:
  assumes "table_ok g"
  shows "table_ok (clearTT g)"
proof -
  have "list_all (\<lambda>b. length (slots b) = TT_BUCKET_NB) (replicate n zero_bucket)" for n
    by (simp add: list_all_iff zero_bucket_def)
  then show ?thesis
    using assms
    by (simp add: table_ok_def clearTT_buckets [OF assms] clearTT_simps del: replicate_Suc)
qed

lemma bucket_slots_clearTT:
  assumes "table_ok g"
  shows "bucket_slots (clearTT g) hash = [zero_entry, zero_entry, zero_entry]"
  using bucket_index_less [OF assms, of hash]
  by (simp add: bucket_slots_def clearTT_buckets [OF assms] clearTT_simps zero_bucket_def
      TT_BUCKET_NB_def numeral_3_eq_3)

lemma getTTEntry_clearTT:
  assumes "table_ok g"
  shows "fst (getTTEntry hash board (clearTT g)) =
     (if ucast (drop_bit 48 hash) = (0 :: 16 word) \<and>
         verificationHashes g ! verification_index g hash 0 = boardToBoardHashSrc board
      then Some \<lparr> out_move = 0, out_value = 0, out_eval = 0, out_depth = 0,
                   out_bound = BOUND_NONE, out_slot = 0 \<rparr>
      else None)"
proof (cases "ucast (drop_bit 48 hash) = (0 :: 16 word)")
  case False
  then have "\<forall>k<TT_BUCKET_NB. hash16 (bucket_slots (clearTT g) hash ! k) \<noteq> ucast (drop_bit 48 hash)"
    unfolding all_slots by (simp add: bucket_slots_clearTT [OF assms] zero_entry_def)
  then show ?thesis using False by (simp add: getTTEntry_no_match)
next
  case True
  have first: "getTTEntry hash board (clearTT g) = getTTEntry_slot hash board (clearTT g) 0"
    using True
    by (intro getTTEntry_first_match)
       (simp_all add: bucket_slots_clearTT [OF assms] zero_entry_def TT_BUCKET_NB_def)
  have slot0: "bucket_slots (g'\<lparr> passedLookups := p, verificationFailures := f \<rparr>) hash
      = bucket_slots g' hash" for g' p f
    by (simp add: bucket_slots_def bucket_index_def)
  show ?thesis
  proof (cases "verificationHashes g ! verification_index g hash 0 = boardToBoardHashSrc board")
    case False
    then have "fst (verifyTTEntry hash 0 board (clearTT g)) = 1"
      by (auto simp: verifyTTEntry_def Let_def clearTT_simps)
    then obtain g1 where "verifyTTEntry hash 0 board (clearTT g) = (1, g1)"
      by (cases "verifyTTEntry hash 0 board (clearTT g)") simp
    then show ?thesis
      using False by (simp add: first getTTEntry_slot_def)
  next
    case same: True
    then have "verifyTTEntry hash 0 board (clearTT g) =
        (0, (clearTT g)\<lparr> passedLookups := passedLookups g + 1,
                            verificationFailures := verificationFailures g + 0 \<rparr>)"
      by (simp add: verifyTTEntry_def Let_def clearTT_simps)
    moreover have "TTable.generation (Table g) AND 3 = 0"
      using assms by (simp add: table_ok_def TT_MASK_BOUND_def)
    ultimately show ?thesis
      using True same
      by (simp add: first getTTEntry_slot_def Let_def slot0 bucket_slots_clearTT [OF assms]
          zero_entry_def TT_MASK_BOUND_def BOUND_NONE_def clearTT_simps)
  qed
qed

lemma table_ok_low_store:
  "table_ok (storeTTEntry low_hash 796 55 40 10 BOUND_EXACT startpos fresh_table)"
  by (rule table_ok_storeTTEntry [OF table_ok_fresh_table])

lemma low_hash16: "(ucast (drop_bit 48 low_hash) :: 16 word) = 0"
  by (simp add: low_hash_def drop_bit_eq_div)

lemma low_bucket: "bucket_slots fresh_table low_hash = [zero_entry, zero_entry, zero_entry]"
  by (simp add: bucket_slots_def bucket_index_def fresh_table_def low_hash_def zero_bucket_def
      TT_BUCKET_NB_def numeral_3_eq_3)

lemma low_target: "store_target fresh_table low_hash = 0"
  by (simp add: store_target_def storeTTEntry_scan_unfold low_bucket zero_entry_def
      low_hash16 Let_def TT_BUCKET_NB_def)

lemma low_record:
  "verificationHashes (storeTTEntry low_hash 796 55 40 10 BOUND_EXACT startpos fresh_table) !
     verification_index (storeTTEntry low_hash 796 55 40 10 BOUND_EXACT startpos fresh_table) low_hash 0
   = boardToBoardHashSrc startpos"
proof -
  have i: "verification_index (storeTTEntry low_hash 796 55 40 10 BOUND_EXACT startpos fresh_table)
      low_hash 0 = verification_index fresh_table low_hash 0"
    by (simp add: storeTTEntry_written [OF not_discarded_exact] verification_index_def set_slot_simps)
  have "verification_index fresh_table low_hash 0 < length (verificationHashes fresh_table)"
    by (rule verification_index_less [OF table_ok_fresh_table]) (simp add: TT_BUCKET_NB_def)
  then show ?thesis
    unfolding i
    by (simp add: storeTTEntry_written [OF not_discarded_exact] low_target set_slot_simps)
qed

text \<open>
  Claim C1 (clean-slate miss law), evaluated where the code departs from it. On the table
  \<open>initTT(2)\<close> builds, store the initial position under a hash whose top 16 bits are zero,
  clear the table, and probe with the same hash and board: the probe returns 1, with the
  contents of the zeroed slot, because the record the store left in \<open>verificationHashes\<close>
  still matches the board.
\<close>

theorem probe_after_clear_hits:
  "initTT example_heap 2 start_globals = Some fresh_table \<and>
   fst (getTTEntry low_hash startpos
          (clearTT (storeTTEntry low_hash 796 55 40 10 BOUND_EXACT startpos fresh_table))) =
     Some \<lparr> out_move = 0, out_value = 0, out_eval = 0, out_depth = 0,
            out_bound = BOUND_NONE, out_slot = 0 \<rparr>"
  using getTTEntry_clearTT [OF table_ok_low_store, of low_hash startpos] initTT_2
  by (simp add: low_hash16 low_record)

text \<open>
  What holds of a probe right after \<open>clearTT\<close>, for every hash and board: it reports a hit
  exactly when the top 16 bits of the hash are zero and the verification record of the
  bucket's first slot equals the packed board, and the hit carries the zeroed slot.
\<close>

theorem probe_after_clear:
  assumes "table_ok g"
  shows "fst (getTTEntry hash board (clearTT g)) =
     (if ucast (drop_bit 48 hash) = (0 :: 16 word) \<and>
         verificationHashes g ! verification_index g hash 0 = boardToBoardHashSrc board
      then Some \<lparr> out_move = 0, out_value = 0, out_eval = 0, out_depth = 0,
                   out_bound = BOUND_NONE, out_slot = 0 \<rparr>
      else None)"
  by (rule getTTEntry_clearTT [OF assms])

text \<open>On the table as \<open>initTT\<close> leaves it, probes for the initial position miss.\<close>

theorem probe_after_clear_witness:
  "table_ok fresh_table \<and>
   fst (getTTEntry example_hash startpos (clearTT fresh_table)) = None \<and>
   fst (getTTEntry low_hash startpos (clearTT fresh_table)) = None"
proof -
  have "verificationHashes fresh_table ! verification_index fresh_table low_hash 0 = zero_hashsrc"
    using verification_index_less [OF table_ok_fresh_table, of 0 low_hash]
    by (simp add: fresh_table_def TT_BUCKET_NB_def)
  moreover have "boardToBoardHashSrc startpos \<noteq> zero_hashsrc"
    by (simp add: boardToBoardHashSrc_def startpos_def zero_hashsrc_def)
  ultimately show ?thesis
    using probe_after_clear [OF table_ok_fresh_table, of example_hash startpos]
      probe_after_clear [OF table_ok_fresh_table, of low_hash startpos] table_ok_fresh_table
    by (simp add: example_hash16 low_hash16)
qed

section \<open>Further properties of the table\<close>

lemma unat_two_power_minus_1:
  assumes "k < 64"
  shows "unat (2 ^ k - 1 :: 64 word) = 2 ^ k - 1"
proof -
  have "(2 ^ k - 1 :: 64 word) + 1 = 2 ^ k" by simp
  have pos: "(1 :: 64 word) \<le> 2 ^ k"
    using unat_two_power [OF assms] by (simp add: word_le_nat_alt)
  then have "unat (2 ^ k - 1 :: 64 word) = unat (2 ^ k :: 64 word) - unat (1 :: 64 word)"
    by (rule unat_sub)
  then show ?thesis by (simp add: unat_two_power [OF assms])
qed

text \<open>
  The key-size search of \<open>initTT\<close> stops for every requested size, at a key size \<open>k\<close>
  between 16 and 58. \<open>initTT\<close> returns exactly when the allocator grants the \<open>2 ^ (k + 5)\<close>
  bytes of the bucket array, with \<open>2 ^ k\<close> zeroed buckets, \<open>hashMask = 2 ^ k - 1\<close> and the
  generation counter untouched. When the \<open>3 * 2 ^ k\<close> verification records are granted too,
  they are zeroed and the table satisfies the invariant; when they are not, the verification
  array is empty and the invariant fails.
\<close>

theorem initTT_establishes_invariant:
  assumes "TTable.generation (Table g) AND TT_MASK_BOUND = 0"
  shows "\<exists>k. keySize_search megabytes 16 = Some k \<and> 16 \<le> k \<and> k \<le> 58 \<and>
     (case initTT heap megabytes g of
        None \<Rightarrow> \<not> grants_bytes heap (2 ^ (k + 5))
      | Some g' \<Rightarrow>
          grants_bytes heap (2 ^ (k + 5)) \<and>
          hashMask (Table g') = 2 ^ k - 1 \<and>
          buckets (Table g') = replicate (2 ^ k) zero_bucket \<and>
          TTable.generation (Table g') = TTable.generation (Table g) \<and>
          (if grants_records heap (3 * 2 ^ k)
           then verificationHashes g' = replicate (3 * 2 ^ k) zero_hashsrc \<and> table_ok g'
           else verificationHashes g' = [] \<and> \<not> table_ok g'))"
proof -
  obtain k where k: "keySize_search megabytes 16 = Some k" "16 \<le> k" "k \<le> 58"
    using keySize_search_result [of 16 megabytes] by auto
  let ?g' = "g\<lparr> Table := (Table g)\<lparr> buckets := replicate (2 ^ k) zero_bucket, hashMask := 2 ^ k - 1 \<rparr>,
              verificationHashes :=
                (if grants_records heap (3 * 2 ^ k) then replicate (3 * 2 ^ k) zero_hashsrc else []) \<rparr>"
  note init = initTT_result [OF k(1,3), of heap g]
  have u: "unat (2 ^ k - 1 :: 64 word) = 2 ^ k - 1"
    using k(3) by (intro unat_two_power_minus_1) simp
  have "(2 :: nat) ^ k \<le> 2 ^ 58" using k(3) by (intro power_increasing) auto
  then have small: "(2 :: nat) ^ k - 1 < 2 ^ 58" by simp
  have all: "list_all (\<lambda>b. length (slots b) = TT_BUCKET_NB) (replicate (2 ^ k) zero_bucket)"
    by (simp add: list_all_iff zero_bucket_def)
  have ok: "table_ok ?g'" if "grants_records heap (3 * 2 ^ k)"
    using assms all small that by (simp add: table_ok_def u)
  have not_ok: "\<not> table_ok ?g'" if "\<not> grants_records heap (3 * 2 ^ k)"
    using that by (simp add: table_ok_def)
  have "case initTT heap megabytes g of
        None \<Rightarrow> \<not> grants_bytes heap (2 ^ (k + 5))
      | Some g' \<Rightarrow>
          grants_bytes heap (2 ^ (k + 5)) \<and>
          hashMask (Table g') = 2 ^ k - 1 \<and>
          buckets (Table g') = replicate (2 ^ k) zero_bucket \<and>
          TTable.generation (Table g') = TTable.generation (Table g) \<and>
          (if grants_records heap (3 * 2 ^ k)
           then verificationHashes g' = replicate (3 * 2 ^ k) zero_hashsrc \<and> table_ok g'
           else verificationHashes g' = [] \<and> \<not> table_ok g')"
  proof (cases "grants_bytes heap (2 ^ (k + 5))")
    case False
    then show ?thesis using init by simp
  next
    case True
    then have "initTT heap megabytes g = Some ?g'" using init by simp
    then show ?thesis using True ok not_ok by (cases "grants_records heap (3 * 2 ^ k)") simp_all
  qed
  then show ?thesis using k by (intro exI [of _ k]) simp
qed

text \<open>From the globals as the program starts, \<open>initTT(2)\<close> builds the 2 MB table.\<close>

theorem initTT_establishes_invariant_witness:
  "TTable.generation (Table start_globals) AND TT_MASK_BOUND = 0 \<and>
   initTT example_heap 2 start_globals = Some fresh_table \<and> table_ok fresh_table"
proof -
  have a: "TTable.generation (Table start_globals) AND TT_MASK_BOUND = 0"
    by (simp add: start_globals_def)
  obtain k where "case initTT example_heap 2 start_globals of
        None \<Rightarrow> \<not> grants_bytes example_heap (2 ^ (k + 5))
      | Some g' \<Rightarrow>
          grants_bytes example_heap (2 ^ (k + 5)) \<and>
          hashMask (Table g') = 2 ^ k - 1 \<and>
          buckets (Table g') = replicate (2 ^ k) zero_bucket \<and>
          TTable.generation (Table g') = TTable.generation (Table start_globals) \<and>
          (if grants_records example_heap (3 * 2 ^ k)
           then verificationHashes g' = replicate (3 * 2 ^ k) zero_hashsrc \<and> table_ok g'
           else verificationHashes g' = [] \<and> \<not> table_ok g')"
    using initTT_establishes_invariant [OF a, of 2 example_heap] by blast
  then show ?thesis using a initTT_2 table_ok_fresh_table by simp
qed

text \<open>
  Generation wraparound: \<open>updateTT\<close> adds 4 to \<open>Table.generation\<close> and touches nothing else,
  so 64 calls bring the globals back to where they were; the two low bits of the counter
  stay clear.
\<close>

theorem generation_wraparound:
  "(updateTT ^^ 64) g = g \<and>
   buckets (Table (updateTT g)) = buckets (Table g) \<and>
   TTable.generation (Table (updateTT g)) = TTable.generation (Table g) + 4 \<and>
   (table_ok g \<longrightarrow> table_ok (updateTT g))"
proof -
  have "(updateTT ^^ 64) g = g" by (simp add: updateTT_funpow)
  then show ?thesis
    using table_ok_updateTT [of g] by (simp add: updateTT_def TT_MASK_BOUND_def)
qed

text \<open>From generation 8 one call gives generation 12.\<close>

theorem generation_wraparound_witness:
  "table_ok mixed_table \<and> (updateTT ^^ 64) mixed_table = mixed_table \<and>
   table_ok (updateTT mixed_table) \<and>
   TTable.generation (Table (updateTT mixed_table)) = 12"
  using generation_wraparound [of mixed_table] table_ok_mixed_table
  by (simp add: mixed_generation)
text \<open>
  Collision tolerance: when two exact-bound stores go to the same bucket with the same
  16-bit signature, the second for a board that packs differently, a probe for the first
  hash and board reports not found instead of returning the second board's entry.
\<close>

theorem collision_reports_miss:
  assumes ok: "table_ok g"
    and same: "H1 AND hashMask (Table g) = H2 AND hashMask (Table g)"
    and sig: "(ucast (drop_bit 48 H1) :: 16 word) = ucast (drop_bit 48 H2)"
    and diff: "boardToBoardHashSrc B1 \<noteq> boardToBoardHashSrc B2"
  shows "fst (getTTEntry H1 B1
            (storeTTEntry H2 m2 v2 e2 d2 BOUND_EXACT B2
               (storeTTEntry H1 m1 v1 e1 d1 BOUND_EXACT B1 g))) = None"
proof -
  let ?g1 = "storeTTEntry H1 m1 v1 e1 d1 BOUND_EXACT B1 g"
  let ?g2 = "storeTTEntry H2 m2 v2 e2 d2 BOUND_EXACT B2 ?g1"
  let ?r = "store_target g H1"
  let ?h16 = "ucast (drop_bit 48 H1) :: 16 word"
  let ?T = "TTable.generation (Table g)"
  have r: "?r < TT_BUCKET_NB" by (rule store_target_less)
  have len: "length (bucket_slots g H1) = TT_BUCKET_NB" by (rule bucket_slots_length [OF ok])
  have ok1: "table_ok ?g1" by (rule table_ok_storeTTEntry [OF ok])
  have ok2: "table_ok ?g2" by (rule table_ok_storeTTEntry [OF ok1])
  have bi: "bucket_index g' H2 = bucket_index g' H1" if "hashMask (Table g') = hashMask (Table g)" for g'
    using same that by (simp add: bucket_index_def)
  have vi: "verification_index g' H2 i = verification_index g' H1 i"
    if "hashMask (Table g') = hashMask (Table g)" for g' i
    using same that by (simp add: verification_index_def)
  have slots_eq: "bucket_slots g' H2 = bucket_slots g' H1"
    if "hashMask (Table g') = hashMask (Table g)" for g'
    using bi [OF that] by (simp add: bucket_slots_def)
  have m1: "hashMask (Table ?g1) = hashMask (Table g)" by (simp add: storeTTEntry_simps)
  have m2: "hashMask (Table ?g2) = hashMask (Table g)" by (simp add: storeTTEntry_simps)
  have s1: "bucket_slots ?g1 H1 = (bucket_slots g H1)[?r := new_entry ?T H1 m1 v1 e1 d1 BOUND_EXACT]"
    by (rule storeTTEntry_exact_slots(1) [OF ok])
  have first1: "hash16 (bucket_slots ?g1 H2 ! ?r) = ucast (drop_bit 48 H2)"
    "\<forall>k < ?r. hash16 (bucket_slots ?g1 H2 ! k) \<noteq> ucast (drop_bit 48 H2)"
    using r len store_target_before [of _ g H1] sig
    by (simp_all add: slots_eq [OF m1] s1 new_entry_def)
  have t2: "store_target ?g1 H2 = ?r" by (rule store_target_unique [OF r first1])
  have s2: "bucket_slots ?g2 H2 =
      (bucket_slots ?g1 H2)[?r := new_entry (TTable.generation (Table ?g1)) H2 m2 v2 e2 d2 BOUND_EXACT]"
    using storeTTEntry_exact_slots(1) [OF ok1, of H2 m2 v2 e2 d2 B2] by (simp add: t2)
  have len1: "length (bucket_slots ?g1 H2) = TT_BUCKET_NB" by (rule bucket_slots_length [OF ok1])
  have first2: "hash16 (bucket_slots ?g2 H1 ! ?r) = ?h16"
    "\<forall>k < ?r. hash16 (bucket_slots ?g2 H1 ! k) \<noteq> ?h16"
    using r len1 first1(2) sig
    by (simp_all add: slots_eq [OF m2, symmetric] s2 new_entry_def)
  have probe: "getTTEntry H1 B1 ?g2 = getTTEntry_slot H1 B1 ?g2 ?r"
    by (rule getTTEntry_first_match [OF r first2])
  have "verificationHashes ?g2 ! verification_index ?g1 H2 ?r = boardToBoardHashSrc B2"
    using storeTTEntry_exact_slots(2) [OF ok1, of H2 m2 v2 e2 d2 B2] by (simp add: t2)
  then have rec: "verificationHashes ?g2 ! verification_index ?g2 H1 ?r = boardToBoardHashSrc B2"
    by (simp add: vi [OF refl] storeTTEntry_simps)
  have "fst (verifyTTEntry H1 ?r B1 ?g2) = 1"
    using diff by (simp add: verifyTTEntry_def Let_def rec)
  then obtain g3 where "verifyTTEntry H1 ?r B1 ?g2 = (1, g3)"
    by (cases "verifyTTEntry H1 ?r B1 ?g2") simp
  then show ?thesis by (simp add: probe getTTEntry_slot_def)
qed

text \<open>The initial position and the position after 1. e4 under colliding hashes.\<close>

theorem collision_reports_miss_witness:
  "table_ok fresh_table \<and>
   example_hash AND hashMask (Table fresh_table) = other_hash AND hashMask (Table fresh_table) \<and>
   (ucast (drop_bit 48 example_hash) :: 16 word) = ucast (drop_bit 48 other_hash) \<and>
   example_hash \<noteq> other_hash \<and>
   boardToBoardHashSrc startpos \<noteq> boardToBoardHashSrc e4_board \<and>
   fst (getTTEntry example_hash startpos
          (storeTTEntry other_hash 1 2 3 4 BOUND_EXACT e4_board
             (storeTTEntry example_hash 796 55 40 10 BOUND_EXACT startpos fresh_table))) = None"
proof -
  have same: "example_hash AND hashMask (Table fresh_table) = other_hash AND hashMask (Table fresh_table)"
    by (simp add: example_hash_def other_hash_def fresh_table_def)
  have sig: "(ucast (drop_bit 48 example_hash) :: 16 word) = ucast (drop_bit 48 other_hash)"
    by (simp add: example_hash_def other_hash_def drop_bit_eq_div)
  have diff: "boardToBoardHashSrc startpos \<noteq> boardToBoardHashSrc e4_board"
    by (simp add: boardToBoardHashSrc_def startpos_def e4_board_def)
  have ne: "example_hash \<noteq> other_hash"
    by (simp add: example_hash_def other_hash_def)
  show ?thesis
    using collision_reports_miss [OF table_ok_fresh_table same sig diff, of 1 2 3 4 796 55 40 10]
      table_ok_fresh_table same sig diff ne
    by simp
qed

end
